theory Spec2Isabelle
  imports Main
begin

section \<open>Python values used by the program\<close>

text \<open>
  The program works on unbounded Python integers (\<open>int\<close>), on lists of them and on
  dictionaries. A rational is the tuple \<open>(n, d)\<close>; a p-adic number is the tuple
  \<open>(seq, rpt, shr)\<close> of its digit list, its repeat index and its right shift.
  Exceptions are values of \<open>error\<close>; a \<open>while\<close> loop that need not stop is a
  partial function into \<open>option\<close>, where \<open>None\<close> stands for not returning.
\<close>

datatype error = IndexError | ZeroDivisionError | ValueError | FloatResult

type_synonym rational = "int \<times> int"

type_synonym padic = "int list \<times> int \<times> int"

text \<open>\<open>xs[i]\<close>: an index below zero counts from the end, anything outside raises.\<close>

definition py_index :: "'a list \<Rightarrow> int \<Rightarrow> error + 'a" where
  "py_index xs i =
     (if 0 \<le> i \<and> i < int (length xs) then Inr (xs ! nat i)
      else if i < 0 \<and> - int (length xs) \<le> i then Inr (xs ! nat (int (length xs) + i))
      else Inl IndexError)"

text \<open>\<open>xs[:k]\<close> and \<open>xs[k:]\<close>: a negative bound counts from the end and is clipped at 0.\<close>

definition slice_to :: "'a list \<Rightarrow> int \<Rightarrow> 'a list" where
  "slice_to xs k = (if 0 \<le> k then take (nat k) xs else take (nat (int (length xs) + k)) xs)"

definition slice_from :: "'a list \<Rightarrow> int \<Rightarrow> 'a list" where
  "slice_from xs k = (if 0 \<le> k then drop (nat k) xs else drop (nat (int (length xs) + k)) xs)"

section \<open>simplify_rational\<close>

definition simplify_rational :: "rational \<Rightarrow> error + rational" where
  "simplify_rational rat =
     (case rat of (n, d) \<Rightarrow>
        (case (if d < 0 then (- n, - d) else (n, d)) of (n, d) \<Rightarrow>
           (let g = gcd n d
            in if g = 0 then Inl ZeroDivisionError else Inr (n div g, d div g))))"

section \<open>padic_from_rational\<close>

text \<open>The first loop: \<open>while d % p == 0\<close>; \<open>d % p\<close> raises when \<open>p\<close> is 0.\<close>

partial_function (option) strip_p ::
  "int \<Rightarrow> int \<Rightarrow> int \<Rightarrow> int \<Rightarrow> (error + int \<times> int \<times> int) option" where
  "strip_p p n d shr =
     (if p = 0 then Some (Inl ZeroDivisionError)
      else if d mod p = 0 then
        (if n mod p = 0 then strip_p p (n div p) (d div p) shr
         else strip_p p n (d div p) (shr + 1))
      else Some (Inr (n, d, shr)))"

declare strip_p.simps [code]

text \<open>
  \<open>pow(d, -1, p)\<close>: the inverse of \<open>d\<close> modulo \<open>p\<close> in the range of \<open>% p\<close>,
  ValueError when there is none.
\<close>

definition pow_inv :: "int \<Rightarrow> int \<Rightarrow> error + int" where
  "pow_inv d p =
     (if p = 0 then Inl ValueError
      else (case find (\<lambda>x. (d * x) mod p = 1 mod p) (if 0 < p then [0..p - 1] else [p + 1..0]) of
              None \<Rightarrow> Inl ValueError
            | Some x \<Rightarrow> Inr x))"

text \<open>The second loop: \<open>while n not in seen\<close>, with the dictionary \<open>seen\<close> as a map.\<close>

partial_function (option) digit_loop ::
  "int \<Rightarrow> int \<Rightarrow> int \<Rightarrow> int \<Rightarrow> (int \<rightharpoonup> nat) \<Rightarrow> int list \<Rightarrow> (int list \<times> nat) option" where
  "digit_loop p d di n seen seq =
     (case seen n of
        Some r \<Rightarrow> Some (seq, r)
      | None \<Rightarrow>
          digit_loop p d di ((n - d * ((n * di) mod p)) div p)
            (seen(n \<mapsto> length seq)) (seq @ [(n * di) mod p]))"

declare digit_loop.simps [code]

definition padic_from_rational :: "rational \<Rightarrow> int \<Rightarrow> (error + padic) option" where
  "padic_from_rational rat p =
     (case rat of (n, d) \<Rightarrow>
        (case strip_p p n d 0 of
           None \<Rightarrow> None
         | Some (Inl e) \<Rightarrow> Some (Inl e)
         | Some (Inr (n, d, shr)) \<Rightarrow>
             (case pow_inv d p of
                Inl e \<Rightarrow> Some (Inl e)
              | Inr di \<Rightarrow>
                  (case digit_loop p d di n Map.empty [] of
                     None \<Rightarrow> None
                   | Some (seq, r) \<Rightarrow> Some (Inr (seq, int r, shr))))))"

section \<open>rational_from_padic\<close>

text \<open>
  Both \<open>for\<close> loops add \<open>seq[i] * k\<close> to an accumulator and multiply \<open>k\<close> by \<open>p\<close>,
  for \<open>i\<close> over a range; \<open>seq[i]\<close> may raise.
\<close>

fun accumulate :: "int list \<Rightarrow> int \<Rightarrow> int list \<Rightarrow> int \<times> int \<Rightarrow> error + int \<times> int" where
  "accumulate seq p [] (s, k) = Inr (s, k)"
| "accumulate seq p (i # is) (s, k) =
     (case py_index seq i of
        Inl e \<Rightarrow> Inl e
      | Inr x \<Rightarrow> accumulate seq p is (s + x * k, k * p))"

text \<open>
  The exponent \<open>len(seq) - rpt\<close> is never negative where \<open>pow\<close> is reached: with
  \<open>rpt > len(seq)\<close> the first loop has raised IndexError. \<open>pow(p, shr)\<close> with a
  negative \<open>shr\<close> leaves the integers (a float, or a division by zero for \<open>p = 0\<close>).
\<close>

definition rational_from_padic :: "padic \<Rightarrow> int \<Rightarrow> error + rational" where
  "rational_from_padic padic p =
     (case padic of (seq, rpt, shr) \<Rightarrow>
        (case accumulate seq p [0..rpt - 1] (0, 1) of
           Inl e \<Rightarrow> Inl e
         | Inr (a, k) \<Rightarrow>
             (case accumulate seq p [rpt..int (length seq) - 1] (0, k) of
                Inl e \<Rightarrow> Inl e
              | Inr (c, k') \<Rightarrow>
                  (let d = p ^ nat (int (length seq) - rpt) - 1
                   in if shr < 0 then Inl (if p = 0 then ZeroDivisionError else FloatResult)
                      else Inr (a * d - c, d * p ^ nat shr)))))"

section \<open>simplify_padic\<close>

text \<open>The index of the first nonzero digit, as the generator under \<open>next\<close> finds it.\<close>

fun first_nonzero :: "int list \<Rightarrow> nat option" where
  "first_nonzero [] = None"
| "first_nonzero (d # ds) = (if d \<noteq> 0 then Some 0 else map_option Suc (first_nonzero ds))"

text \<open>\<open>while rpt > 0 and seq[rpt - 1] == seq[-1]\<close>: one digit is popped per round.\<close>

function merge_tail :: "int list \<Rightarrow> int \<Rightarrow> error + int list \<times> int" where
  "merge_tail seq rpt =
     (if rpt > 0 then
        (case py_index seq (rpt - 1) of
           Inl e \<Rightarrow> Inl e
         | Inr x \<Rightarrow>
             (case py_index seq (- 1) of
                Inl e \<Rightarrow> Inl e
              | Inr y \<Rightarrow> if x = y then merge_tail (butlast seq) (rpt - 1) else Inr (seq, rpt)))
      else Inr (seq, rpt))"
  by pat_completeness auto
termination
  by (relation "measure (\<lambda>(seq, rpt). nat rpt)") auto

text \<open>\<open>all(seq[j] == seq[j-i] for j in ...)\<close>: stops at the first mismatch.\<close>

fun all_match :: "int list \<Rightarrow> int \<Rightarrow> int list \<Rightarrow> error + bool" where
  "all_match seq i [] = Inr True"
| "all_match seq i (j # js) =
     (case py_index seq j of
        Inl e \<Rightarrow> Inl e
      | Inr x \<Rightarrow>
          (case py_index seq (j - i) of
             Inl e \<Rightarrow> Inl e
           | Inr y \<Rightarrow> if x = y then all_match seq i js else Inr False))"

text \<open>The \<open>for i\<close> loop over the candidate periods, left at the first one that fits.\<close>

fun min_period :: "int list \<Rightarrow> int \<Rightarrow> int list \<Rightarrow> error + int list" where
  "min_period seq rpt [] = Inr seq"
| "min_period seq rpt (i # is) =
     (if (int (length seq) - rpt) mod i = 0 then
        (case all_match seq i [rpt + i..int (length seq) - 1] of
           Inl e \<Rightarrow> Inl e
         | Inr ok \<Rightarrow> if ok then Inr (slice_to seq (rpt + i)) else min_period seq rpt is)
      else min_period seq rpt is)"

definition simplify_padic :: "padic \<Rightarrow> error + padic" where
  "simplify_padic padic =
     (case padic of (seq, rpt, shr) \<Rightarrow>
        (let t = (case first_nonzero (slice_to seq shr) of
                    Some i \<Rightarrow> int i
                  | None \<Rightarrow> min (int (length seq)) shr)
         in if t = int (length seq) then Inr ([0], 0, 0)
            else (case merge_tail (slice_from seq t) (rpt - t) of
                    Inl e \<Rightarrow> Inl e
                  | Inr (seq', rpt') \<Rightarrow>
                      (case min_period seq' rpt' [1..(int (length seq') - rpt') div 2] of
                         Inl e \<Rightarrow> Inl e
                       | Inr seq'' \<Rightarrow> Inr (seq'', rpt', shr - t)))))"

section \<open>padic_digitwise_op\<close>

text \<open>
  The loop \<open>while (idx_a, idx_b) not in seen\<close>. The digit operation is any Python
  callable, so it may raise.
\<close>

partial_function (option) combine_loop ::
  "(int \<Rightarrow> int \<Rightarrow> error + int) \<Rightarrow> int list \<Rightarrow> int \<Rightarrow> int list \<Rightarrow> int \<Rightarrow>
   int \<Rightarrow> int \<Rightarrow> (int \<times> int \<rightharpoonup> nat) \<Rightarrow> int list \<Rightarrow> (error + int list \<times> nat) option" where
  "combine_loop op seq_a rpt_a seq_b rpt_b idx_a idx_b seen seq =
     (case seen (idx_a, idx_b) of
        Some r \<Rightarrow> Some (Inr (seq, r))
      | None \<Rightarrow>
          (case (if idx_a \<ge> 0 then py_index seq_a idx_a else Inr 0) of
             Inl e \<Rightarrow> Some (Inl e)
           | Inr dig_a \<Rightarrow>
               (case (if idx_b \<ge> 0 then py_index seq_b idx_b else Inr 0) of
                  Inl e \<Rightarrow> Some (Inl e)
                | Inr dig_b \<Rightarrow>
                    (case op dig_a dig_b of
                       Inl e \<Rightarrow> Some (Inl e)
                     | Inr v \<Rightarrow>
                         combine_loop op seq_a rpt_a seq_b rpt_b
                           (if idx_a + 1 = int (length seq_a) then rpt_a else idx_a + 1)
                           (if idx_b + 1 = int (length seq_b) then rpt_b else idx_b + 1)
                           (seen((idx_a, idx_b) \<mapsto> length seq)) (seq @ [v])))))"

declare combine_loop.simps [code]

definition padic_digitwise_op ::
  "(int \<Rightarrow> int \<Rightarrow> error + int) \<Rightarrow> padic \<Rightarrow> padic \<Rightarrow> (error + padic) option" where
  "padic_digitwise_op op padic_a padic_b =
     (case padic_a of (seq_a, rpt_a, shr_a) \<Rightarrow>
        (case padic_b of (seq_b, rpt_b, shr_b) \<Rightarrow>
           (case combine_loop op seq_a rpt_a seq_b rpt_b
                   (min 0 (shr_a - shr_b)) (min 0 (shr_b - shr_a)) Map.empty [] of
              None \<Rightarrow> None
            | Some (Inl e) \<Rightarrow> Some (Inl e)
            | Some (Inr (seq, r)) \<Rightarrow> Some (Inr (seq, int r, max shr_a shr_b)))))"

text \<open>\<open>sum_op\<close>: \<open>(a + b) % p\<close> raises for \<open>p = 0\<close>.\<close>

definition sum_op :: "int \<Rightarrow> int \<Rightarrow> int \<Rightarrow> error + int" where
  "sum_op p a b = (if p = 0 then Inl ZeroDivisionError else Inr ((a + b) mod p))"

section \<open>What an expansion denotes\<close>

text \<open>
  The header of the source gives the reading of \<open>(seq, rpt, shr)\<close>: \<open>seq[0]\<close> stands
  at the place \<open>p^(-shr)\<close>, the digits follow each other upwards, and after the end of
  \<open>seq\<close> the index cycles back to \<open>rpt\<close>. \<open>digit_at x n\<close> is the digit that is
  \<open>n\<close> places above \<open>seq[0]\<close>.
\<close>

definition digit_at :: "padic \<Rightarrow> nat \<Rightarrow> int" where
  "digit_at x n =
     (case x of (seq, rpt, shr) \<Rightarrow>
        if n < length seq then seq ! n
        else seq ! (nat rpt + (n - nat rpt) mod (length seq - nat rpt)))"

text \<open>
  The digit of \<open>x\<close> at the place that is \<open>n\<close> places above \<open>p^(-s)\<close>, for a shift
  \<open>s\<close> that is at least the shift of \<open>x\<close>: 0 below the stored digits of \<open>x\<close>.
\<close>

definition place_digit :: "padic \<Rightarrow> int \<Rightarrow> nat \<Rightarrow> int" where
  "place_digit x s n =
     (case x of (seq, rpt, shr) \<Rightarrow>
        if int n < s - shr then 0 else digit_at x (nat (int n - (s - shr))))"

text \<open>
  The loop of \<open>padic_digitwise_op\<close> taken apart: how one index advances, where an index
  stands after \<open>m\<close> steps from 0, the digit read at an index, and the step and the
  output of the pair of indices.
\<close>

definition advance :: "int list \<Rightarrow> int \<Rightarrow> int \<Rightarrow> int" where
  "advance seq rpt idx = (if idx + 1 = int (length seq) then rpt else idx + 1)"

definition idx_pos :: "int list \<Rightarrow> int \<Rightarrow> int \<Rightarrow> int" where
  "idx_pos seq rpt m =
     (if m < int (length seq) then m else rpt + (m - rpt) mod (int (length seq) - rpt))"

definition digit_or_0 :: "int list \<Rightarrow> int \<Rightarrow> int" where
  "digit_or_0 seq idx = (if 0 \<le> idx then seq ! nat idx else 0)"

definition pair_step :: "int list \<Rightarrow> int \<Rightarrow> int list \<Rightarrow> int \<Rightarrow> int \<times> int \<Rightarrow> int \<times> int" where
  "pair_step seq_a rpt_a seq_b rpt_b s = (advance seq_a rpt_a (fst s), advance seq_b rpt_b (snd s))"

definition pair_out ::
  "(int \<Rightarrow> int \<Rightarrow> error + int) \<Rightarrow> int list \<Rightarrow> int list \<Rightarrow> int \<times> int \<Rightarrow> error + int" where
  "pair_out op seq_a seq_b s =
     (case (if fst s \<ge> 0 then py_index seq_a (fst s) else Inr 0) of
        Inl e \<Rightarrow> Inl e
      | Inr dig_a \<Rightarrow>
          (case (if snd s \<ge> 0 then py_index seq_b (snd s) else Inr 0) of
             Inl e \<Rightarrow> Inl e
           | Inr dig_b \<Rightarrow> op dig_a dig_b))"

text \<open>
  The header of the source: the period of repetition is \<open>len(seq) - rpt\<close>.
  \<open>rational_from_padic\<close> and \<open>str_from_padic\<close> read the repeating digits as
  \<open>seq[i]\<close> for \<open>i\<close> in \<open>range(rpt, len(seq))\<close>, with the indexing of Python;
  \<open>tail_digits\<close> is that list. A list of digits, repeated for ever, \<open>has_period j\<close>
  when moving it by \<open>j\<close> places leaves every digit in place.
\<close>

definition period_length :: "padic \<Rightarrow> int" where
  "period_length x = (case x of (seq, rpt, shr) \<Rightarrow> int (length seq) - rpt)"

definition tail_digits :: "padic \<Rightarrow> (error + int) list" where
  "tail_digits x = (case x of (seq, rpt, shr) \<Rightarrow> map (py_index seq) [rpt..int (length seq) - 1])"

definition has_period :: "'a list \<Rightarrow> nat \<Rightarrow> bool" where
  "has_period ds j = list_all (\<lambda>k. ds ! ((k + j) mod length ds) = ds ! k) [0..<length ds]"

text \<open>
  The numerator that \<open>rational_from_padic\<close> computes from the digits \<open>seq\<close> repeating
  from the index \<open>r\<close>: \<open>a * (p^t - 1) - c\<close> for \<open>t = len(seq) - r\<close>.
\<close>

definition numer :: "int list \<Rightarrow> nat \<Rightarrow> int \<Rightarrow> int" where
  "numer seq r p =
     (\<Sum>m = 0..<r. seq ! m * p ^ m) * (p ^ (length seq - r) - 1)
       - (\<Sum>m = r..<length seq. seq ! m * p ^ m)"

section \<open>The base and the state of the conversion\<close>

text \<open>
  The main program asserts \<open>is_probably_prime(p)\<close>, a randomised test; the claims
  speak of a prime \<open>p\<close>, which is what \<open>is_prime\<close> says.
\<close>

definition is_prime :: "int \<Rightarrow> bool" where
  "is_prime p \<longleftrightarrow> 1 < p \<and> (\<forall>m\<in>{2..p - 1}. \<not> m dvd p)"

text \<open>
  One round of the second loop of \<open>padic_from_rational\<close> takes the state \<open>n\<close> to
  \<open>(n - d * i) // p\<close> for the digit \<open>i = (n * di) % p\<close>.
\<close>

definition digit_step :: "int \<Rightarrow> int \<Rightarrow> int \<Rightarrow> int \<Rightarrow> int" where
  "digit_step p d di n = (n - d * ((n * di) mod p)) div p"

section \<open>Reading Python ranges and indices\<close>

lemma py_index_nat: "i < length xs \<Longrightarrow> py_index xs (int i) = Inr (xs ! i)"
  by (simp add: py_index_def)

lemma upto_as_upt: "[int i..int j - 1] = map int [i..<j]"
proof (induction j)
  case 0
  then show ?case by simp
next
  case (Suc j)
  show ?case
  proof (cases "i \<le> j")
    case True
    then have "[int i..int (Suc j) - 1] = [int i..int j - 1] @ [int j]"
      using upto_rec2 [of "int i" "int j"] by simp
    with Suc True show ?thesis by simp
  next
    case False
    then show ?thesis by simp
  qed
qed

lemma upto_from_0: "0 \<le> r \<Longrightarrow> [0..r - 1] = map int [0..<nat r]"
  using upto_as_upt [of 0 "nat r"] by simp

section \<open>The value rational_from_padic computes\<close>

text \<open>
  A loop of \<open>rational_from_padic\<close> that starts with \<open>k = p ^ i\<close> adds the digits at
  the indices \<open>i..<j\<close>, each at its own power of \<open>p\<close>, and leaves \<open>k = p ^ j\<close>.
\<close>

lemma accumulate_places:
  "j \<le> length seq \<Longrightarrow> i \<le> j \<Longrightarrow>
   accumulate seq p (map int [i..<j]) (s, p ^ i) = Inr (s + (\<Sum>m = i..<j. seq ! m * p ^ m), p ^ j)"
proof (induction "j - i" arbitrary: i s)
  case 0
  then show ?case by simp
next
  case (Suc k)
  then have lt: "i < j" by simp
  then have "[i..<j] = i # [Suc i..<j]" by (simp add: upt_conv_Cons)
  moreover have "accumulate seq p (map int [Suc i..<j]) (s + seq ! i * p ^ i, p ^ Suc i) =
      Inr (s + seq ! i * p ^ i + (\<Sum>m = Suc i..<j. seq ! m * p ^ m), p ^ j)"
    using Suc.hyps(1) [of "Suc i"] Suc.hyps(2) Suc.prems lt by simp
  ultimately show ?case
    using lt Suc.prems by (simp add: py_index_nat sum.atLeast_Suc_lessThan mult.commute)
qed

lemma rational_from_padic_formula:
  assumes "0 \<le> rpt" "rpt \<le> int (length seq)" "0 \<le> shr"
  shows "rational_from_padic (seq, rpt, shr) p =
     Inr ((\<Sum>m = 0..<nat rpt. seq ! m * p ^ m) * (p ^ (length seq - nat rpt) - 1)
            - (\<Sum>m = nat rpt..<length seq. seq ! m * p ^ m),
          (p ^ (length seq - nat rpt) - 1) * p ^ nat shr)"
proof -
  have a: "accumulate seq p [0..rpt - 1] (0, 1) =
      Inr ((\<Sum>m = 0..<nat rpt. seq ! m * p ^ m), p ^ nat rpt)"
    using accumulate_places [of "nat rpt" seq 0 p 0] assms by (simp add: upto_from_0)
  have "[rpt..int (length seq) - 1] = map int [nat rpt..<length seq]"
    using upto_as_upt [of "nat rpt" "length seq"] assms by simp
  then have c: "accumulate seq p [rpt..int (length seq) - 1] (0, p ^ nat rpt) =
      Inr ((\<Sum>m = nat rpt..<length seq. seq ! m * p ^ m), p ^ length seq)"
    using accumulate_places [of "length seq" seq "nat rpt" p 0] assms by simp
  have "nat (int (length seq) - rpt) = length seq - nat rpt"
    using assms by linarith
  then show ?thesis
    using assms by (simp add: rational_from_padic_def a c Let_def)
qed

lemma simplify_rational_pos:
  assumes "0 < d"
  shows "\<exists>n' d'. simplify_rational (n, d) = Inr (n', d') \<and> 0 < d' \<and> coprime n' d' \<and>
           n' * d = n * d'"
proof -
  let ?g = "gcd n d"
  have g: "0 < ?g" using assms by (simp add: gcd_pos_int)
  have eq: "simplify_rational (n, d) = Inr (n div ?g, d div ?g)"
    using assms g by (simp add: simplify_rational_def Let_def)
  have "0 < d div ?g"
    using assms g by (simp add: pos_imp_zdiv_pos_iff zdvd_imp_le)
  moreover have "coprime (n div ?g) (d div ?g)"
    using assms by (simp add: div_gcd_coprime)
  moreover have "(n div ?g) * d = n * (d div ?g)"
    by (metis div_mult_swap gcd_dvd1 gcd_dvd2 mult.commute)
  ultimately show ?thesis using eq by blast
qed

section \<open>Claims about rational_from_padic\<close>

text \<open>
  C6, as stated, fails: \<open>rational_from_padic\<close> returns the numerator and the denominator
  of the formula as they are, without reducing them. For the digits \<open>[1, 0]\<close> repeating
  from index 1 in base 3 (the integer 1) it returns \<open>2/2\<close>.
\<close>

theorem rational_from_padic_not_reduced:
  "rational_from_padic ([1, 0], 1, 0) 3 = Inr (2, 2) \<and> \<not> coprime (2::int) 2"
  by code_simp

text \<open>
  C6, amended: for an expansion with \<open>0 \<le> rpt < len(seq)\<close>, \<open>shr \<ge> 0\<close> and a base
  \<open>p > 1\<close>, \<open>rational_from_padic\<close> returns exactly the numerator \<open>a * (p^t - 1) - c\<close>
  and the denominator \<open>(p^t - 1) * p^shr\<close>, where \<open>t = len(seq) - rpt\<close>, \<open>a\<close> is the
  sum of the digits before \<open>rpt\<close> and \<open>c\<close> the sum of the digits from \<open>rpt\<close> on, each
  at its power of \<open>p\<close>. The denominator is positive; the pair need not be in lowest
  terms. \<open>simplify_rational\<close>, which the main program applies to it, returns the same
  rational with a positive denominator coprime to the numerator.
\<close>

theorem rational_from_padic_value:
  assumes "0 \<le> rpt" "rpt < int (length seq)" "0 \<le> shr" "1 < p"
  shows "\<exists>n d n' d'.
      rational_from_padic (seq, rpt, shr) p = Inr (n, d) \<and>
      n = (\<Sum>m = 0..<nat rpt. seq ! m * p ^ m) * (p ^ (length seq - nat rpt) - 1)
            - (\<Sum>m = nat rpt..<length seq. seq ! m * p ^ m) \<and>
      d = (p ^ (length seq - nat rpt) - 1) * p ^ nat shr \<and> 0 < d \<and>
      simplify_rational (n, d) = Inr (n', d') \<and> 0 < d' \<and> coprime n' d' \<and> n' * d = n * d'"
proof -
  let ?d = "(p ^ (length seq - nat rpt) - 1) * p ^ nat shr"
  have "0 < length seq - nat rpt" using assms by linarith
  then have "1 < p ^ (length seq - nat rpt)"
    using assms(4) by (simp add: one_less_power)
  then have pos: "0 < ?d" using assms(4) by simp
  show ?thesis
    using rational_from_padic_formula [of rpt seq shr p] assms simplify_rational_pos [OF pos] pos
    by auto
qed

theorem rational_from_padic_value_witness:
  "\<exists>n d n' d'.
      rational_from_padic ([1, 1, 0], 1, 0) 2 = Inr (n, d) \<and>
      n = (\<Sum>m = 0..<nat 1. [1, 1, 0] ! m * 2 ^ m) * (2 ^ (length [1, 1, 0 :: int] - nat 1) - 1)
            - (\<Sum>m = nat 1..<length [1, 1, 0 :: int]. [1, 1, 0] ! m * 2 ^ m) \<and>
      d = (2 ^ (length [1, 1, 0 :: int] - nat 1) - 1) * 2 ^ nat 0 \<and> 0 < d \<and>
      simplify_rational (n, d) = Inr (n', d') \<and> 0 < d' \<and> coprime n' d' \<and> n' * d = n * d'"
  using rational_from_padic_value [of 1 "[1, 1, 0]" 0 2] by simp

text \<open>
  C7, as stated, fails: with \<open>rpt = len(seq)\<close> (period length 0) \<open>rational_from_padic\<close>
  raises nothing and returns the pair \<open>(0, 0)\<close>, whose denominator is 0.
\<close>

theorem rational_from_padic_period_0_example:
  "rational_from_padic ([1], 1, 0) 2 = Inr (0, 0)"
  by code_simp

text \<open>
  C7, amended: for every digit list, every \<open>shr \<ge> 0\<close> and every base,
  \<open>rational_from_padic\<close> on an expansion with \<open>rpt = len(seq)\<close> returns \<open>(0, 0)\<close>;
  the program has no check of the period length. The error comes only afterwards, when
  \<open>simplify_rational\<close> divides by \<open>gcd(0, 0) = 0\<close>.
\<close>

theorem rational_from_padic_period_0:
  "0 \<le> shr \<Longrightarrow>
   rational_from_padic (seq, int (length seq), shr) p = Inr (0, 0) \<and>
   simplify_rational (0, 0) = Inl ZeroDivisionError"
  by (simp add: rational_from_padic_formula simplify_rational_def)

theorem rational_from_padic_period_0_witness:
  "rational_from_padic ([1, 1, 0], 3, 2) 5 = Inr (0, 0) \<and>
   simplify_rational (0, 0) = Inl ZeroDivisionError"
  using rational_from_padic_period_0 [of 2 "[1, 1, 0]" 5] by simp

section \<open>Zeroes stripped out of the repeating part\<close>

text \<open>
  \<open>simplify_padic\<close> drops the zero digits that stand before the first nonzero digit in
  \<open>seq[:shr]\<close> and lowers \<open>rpt\<close> by their number. When there are more of them than
  \<open>rpt\<close>, the digits dropped belong to the repeating part and \<open>rpt\<close> becomes negative.

  C10: the digit-wise sum of \<open>-7/72\<close> and \<open>-1/9\<close> in base 3 is the expansion
  \<open>([0, 1], 0, 2)\<close>, which is well formed. \<open>simplify_padic\<close> returns for it an empty
  digit list with \<open>rpt = -1\<close>, and \<open>rational_from_padic\<close> then raises IndexError.
\<close>

theorem simplify_padic_negative_rpt:
  "padic_from_rational (- 7, 72) 3 = Some (Inr ([1, 2], 0, 2)) \<and>
   padic_from_rational (- 1, 9) 3 = Some (Inr ([2], 0, 2)) \<and>
   padic_digitwise_op (sum_op 3) ([1, 2], 0, 2) ([2], 0, 2) = Some (Inr ([0, 1], 0, 2)) \<and>
   simplify_padic ([0, 1], 0, 2) = Inr ([], - 1, 1) \<and>
   rational_from_padic ([], - 1, 1) 3 = Inl IndexError"
  by code_simp

text \<open>
  C3: on the same expansion a second \<open>simplify_padic\<close> changes the result of the first:
  it turns \<open>([], -1, 1)\<close> into the zero expansion \<open>([0], 0, 0)\<close>.
\<close>

theorem simplify_padic_twice_differs:
  "simplify_padic ([0, 1], 0, 2) = Inr ([], - 1, 1) \<and>
   simplify_padic ([], - 1, 1) = Inr ([0], 0, 0) \<and>
   ([], - 1, 1) \<noteq> ([0 :: int], 0 :: int, 0 :: int)"
  by code_simp

text \<open>
  C4: the digit-wise sum of \<open>-1/4\<close> and \<open>-3/124\<close> in base 2 is the well-formed
  expansion \<open>([0, 0, 1, 1, 1], 0, 2)\<close>. \<open>simplify_padic\<close> strips its two leading
  zeroes, which belong to the repeating part, finds that the candidate period 1 fits and
  cuts the list with \<open>seq[:rpt + 1]\<close> for \<open>rpt = -2\<close>. The result
  \<open>([1, 1], -2, 0)\<close> has the period length 4, its repeating digits as the program
  reads them are 1, 1, 1, 1, and the smaller period 1 reproduces them: the period of the
  result is not minimal. A second \<open>simplify_padic\<close> truncates the result once more.
\<close>

theorem simplify_padic_period_not_minimal:
  "simplify_padic ([0, 0, 1, 1, 1], 0, 2) = Inr ([1, 1], - 2, 0) \<and>
   period_length ([1, 1], - 2, 0) = 4 \<and>
   tail_digits ([1, 1], - 2, 0) = [Inr 1, Inr 1, Inr 1, Inr 1] \<and>
   has_period (tail_digits ([1, 1], - 2, 0)) 1 \<and>
   simplify_padic ([1, 1], - 2, 0) = Inr ([1], - 2, 0) \<and>
   padic_from_rational (- 1, 4) 2 = Some (Inr ([1], 0, 2)) \<and>
   padic_from_rational (- 3, 124) 2 = Some (Inr ([1, 1, 0, 0, 0], 0, 2)) \<and>
   padic_digitwise_op (sum_op 2) ([1], 0, 2) ([1, 1, 0, 0, 0], 0, 2) =
     Some (Inr ([0, 0, 1, 1, 1], 0, 2))"
  by code_simp

section \<open>Loops that stop at the first repeated state\<close>

text \<open>
  Both \<open>while ... not in seen\<close> loops of the program have one shape: a state, a
  dictionary from the states met so far to the number of digits produced when they were
  met, and a digit appended per round. The lemmas of this section hold for every function
  \<open>L\<close> that satisfies the unfolding equation of such a loop.
\<close>

lemma first_repeat:
  fixes f :: "nat \<Rightarrow> 's"
  assumes fin: "finite S" and inS: "\<And>n. f n \<in> S"
  shows "\<exists>K r. r < K \<and> f K = f r \<and> inj_on f {..<K} \<and> K \<le> card S"
proof -
  let ?P = "\<lambda>K. \<exists>r<K. f K = f r"
  have "\<not> inj_on f {..card S}"
  proof
    assume "inj_on f {..card S}"
    then have "card (f ` {..card S}) = Suc (card S)" by (simp add: card_image)
    moreover have "card (f ` {..card S}) \<le> card S"
      using fin inS by (intro card_mono) auto
    ultimately show False by simp
  qed
  then obtain i j where ij: "i \<le> card S" "j \<le> card S" "f i = f j" "i \<noteq> j"
    by (auto simp: inj_on_def)
  then have "?P (max i j)"
    by (cases "i < j") (auto simp: max_def intro: exI [of _ i] exI [of _ j])
  then have ex: "\<exists>K. ?P K" ..
  define K where "K = (LEAST K. ?P K)"
  have PK: "?P K" unfolding K_def using ex by (rule LeastI_ex)
  have least: "\<And>m. ?P m \<Longrightarrow> K \<le> m" unfolding K_def by (rule Least_le)
  have "K \<le> max i j" using \<open>?P (max i j)\<close> by (rule least)
  then have "K \<le> card S" using ij by simp
  moreover have "inj_on f {..<K}"
  proof (rule inj_onI)
    fix x y assume xy: "x \<in> {..<K}" "y \<in> {..<K}" "f x = f y"
    show "x = y"
    proof (rule ccontr)
      assume "x \<noteq> y"
      then have "?P (max x y)"
        using xy(3) by (cases "x < y") (auto simp: max_def intro: exI [of _ x] exI [of _ y])
      then have "K \<le> max x y" by (rule least)
      with xy show False by simp
    qed
  qed
  ultimately show ?thesis using PK by blast
qed

lemma cycle_loop_step:
  fixes L :: "'s \<Rightarrow> ('s \<rightharpoonup> nat) \<Rightarrow> int list \<Rightarrow> (error + int list \<times> nat) option"
  assumes unfold: "\<And>s seen seq. L s seen seq =
      (case seen s of
         Some r \<Rightarrow> Some (Inr (seq, r))
       | None \<Rightarrow> (case out s of
                    Inl e \<Rightarrow> Some (Inl e)
                  | Inr v \<Rightarrow> L (nxt s) (seen(s \<mapsto> length seq)) (seq @ [v])))"
    and out: "\<And>n. out ((nxt ^^ n) s0) = Inr (g ((nxt ^^ n) s0))"
    and rep: "r < K" "(nxt ^^ K) s0 = (nxt ^^ r) s0" "inj_on (\<lambda>n. (nxt ^^ n) s0) {..<K}"
    and k: "k \<le> K"
    and seen_none: "\<And>s. seen s = None \<longleftrightarrow> s \<notin> (\<lambda>n. (nxt ^^ n) s0) ` {..<k}"
    and seen_some: "\<And>i. i < k \<Longrightarrow> seen ((nxt ^^ i) s0) = Some i"
  shows "L ((nxt ^^ k) s0) seen (map (\<lambda>n. g ((nxt ^^ n) s0)) [0..<k]) =
           Some (Inr (map (\<lambda>n. g ((nxt ^^ n) s0)) [0..<K], r))"
  using k seen_none seen_some
proof (induction "K - k" arbitrary: k seen)
  case 0
  then have "k = K" by simp
  then have "seen ((nxt ^^ k) s0) = Some r"
    using rep(1,2) "0.prems"(3) [of r] by simp
  then show ?case using \<open>k = K\<close> by (subst unfold) simp
next
  case (Suc d)
  let ?st = "\<lambda>n. (nxt ^^ n) s0"
  have lt: "k < K" using Suc.hyps(2) by simp
  have notin: "?st k \<notin> ?st ` {..<k}"
  proof
    assume "?st k \<in> ?st ` {..<k}"
    then obtain i where "i < k" "?st i = ?st k" by auto
    with lt rep(3) show False by (auto simp: inj_on_def)
  qed
  then have none: "seen (?st k) = None" using Suc.prems(2) by simp
  let ?seen = "seen(?st k \<mapsto> k)"
  have a: "\<And>s. ?seen s = None \<longleftrightarrow> s \<notin> ?st ` {..<Suc k}"
    using Suc.prems(2) by (auto simp: less_Suc_eq)
  have b: "\<And>i. i < Suc k \<Longrightarrow> ?seen (?st i) = Some i"
  proof -
    fix i assume "i < Suc k"
    show "?seen (?st i) = Some i"
    proof (cases "i = k")
      case True
      then show ?thesis by simp
    next
      case False
      then have "i < k" using \<open>i < Suc k\<close> by simp
      then have "?st i \<in> ?st ` {..<k}" by blast
      then have "?st i \<noteq> ?st k" using notin by metis
      then show ?thesis using Suc.prems(3) [OF \<open>i < k\<close>] by simp
    qed
  qed
  have "L (?st (Suc k)) ?seen (map (\<lambda>n. g (?st n)) [0..<Suc k]) =
        Some (Inr (map (\<lambda>n. g (?st n)) [0..<K], r))"
    using Suc.hyps(1) [of "Suc k" ?seen] Suc.hyps(2) lt a b by simp
  then show ?case
    by (subst unfold) (simp add: none out)
qed

lemma cycle_loop_total:
  fixes L :: "'s \<Rightarrow> ('s \<rightharpoonup> nat) \<Rightarrow> int list \<Rightarrow> (error + int list \<times> nat) option"
  assumes unfold: "\<And>s seen seq. L s seen seq =
      (case seen s of
         Some r \<Rightarrow> Some (Inr (seq, r))
       | None \<Rightarrow> (case out s of
                    Inl e \<Rightarrow> Some (Inl e)
                  | Inr v \<Rightarrow> L (nxt s) (seen(s \<mapsto> length seq)) (seq @ [v])))"
    and out: "\<And>n. out ((nxt ^^ n) s0) = Inr (g ((nxt ^^ n) s0))"
    and fin: "finite S" and inS: "\<And>n. (nxt ^^ n) s0 \<in> S"
  shows "\<exists>K r. L s0 Map.empty [] = Some (Inr (map (\<lambda>n. g ((nxt ^^ n) s0)) [0..<K], r)) \<and>
           r < K \<and> (nxt ^^ K) s0 = (nxt ^^ r) s0 \<and> inj_on (\<lambda>n. (nxt ^^ n) s0) {..<K} \<and>
           K \<le> card S"
proof -
  obtain K r where rep: "r < K" "(nxt ^^ K) s0 = (nxt ^^ r) s0"
      "inj_on (\<lambda>n. (nxt ^^ n) s0) {..<K}" "K \<le> card S"
    using first_repeat [of S "\<lambda>n. (nxt ^^ n) s0", OF fin inS] by blast
  have "L ((nxt ^^ 0) s0) Map.empty (map (\<lambda>n. g ((nxt ^^ n) s0)) [0..<0]) =
          Some (Inr (map (\<lambda>n. g ((nxt ^^ n) s0)) [0..<K], r))"
    by (rule cycle_loop_step [where out = out, OF unfold out rep(1,2,3)]) simp_all
  then show ?thesis using rep by auto
qed

lemma cycle_periodic:
  fixes nxt :: "'s \<Rightarrow> 's"
  assumes "r < K" "(nxt ^^ K) s0 = (nxt ^^ r) s0" "r \<le> n"
  shows "(nxt ^^ n) s0 = (nxt ^^ (r + (n - r) mod (K - r))) s0"
  using assms(3)
proof (induction n rule: less_induct)
  case (less n)
  show ?case
  proof (cases "n - r < K - r")
    case True
    then show ?thesis using less.prems by simp
  next
    case False
    define m where "m = n - (K - r)"
    have n: "n = (m - r) + K" "r \<le> m" "m < n"
      using False less.prems assms(1) by (auto simp: m_def)
    have "(nxt ^^ n) s0 = (nxt ^^ (m - r)) ((nxt ^^ K) s0)"
      using n(1) by (metis funpow_add o_apply)
    also have "\<dots> = (nxt ^^ (m - r)) ((nxt ^^ r) s0)" using assms(2) by simp
    also have "\<dots> = (nxt ^^ m) s0" using n(2) by (metis funpow_add o_apply le_add_diff_inverse2)
    also have "\<dots> = (nxt ^^ (r + (m - r) mod (K - r))) s0"
      using less.IH [OF n(3) n(2)] .
    also have "(m - r) mod (K - r) = (n - r) mod (K - r)"
    proof -
      have "n - r = (m - r) + (K - r)" using n assms(1) by simp
      then show ?thesis by simp
    qed
    finally show ?thesis .
  qed
qed

section \<open>The indices of padic_digitwise_op\<close>

lemma advance_idx_pos:
  assumes "0 \<le> rpt" "rpt < int (length seq)"
  shows "advance seq rpt (idx_pos seq rpt m) = idx_pos seq rpt (m + 1)"
proof -
  let ?l = "int (length seq)" and ?t = "int (length seq) - rpt"
  have t: "0 < ?t" using assms by simp
  show ?thesis
  proof (cases "m + 1 < ?l")
    case True
    then show ?thesis by (simp add: advance_def idx_pos_def)
  next
    case False
    show ?thesis
    proof (cases "m + 1 = ?l")
      case True
      then have "(m + 1 - rpt) mod ?t = 0" by simp
      then show ?thesis using True by (simp add: advance_def idx_pos_def)
    next
      case neq: False
      with False have ge: "?l \<le> m" by simp
      let ?x = "(m - rpt) mod ?t"
      have x: "0 \<le> ?x" "?x < ?t" using t by simp_all
      have step: "(m + 1 - rpt) mod ?t = (?x + 1) mod ?t"
        by (metis add_diff_eq diff_add_eq mod_add_left_eq)
      show ?thesis
      proof (cases "?x + 1 = ?t")
        case True
        then have "(m + 1 - rpt) mod ?t = 0" using step by simp
        moreover have "rpt + ?x + 1 = ?l" using True by simp
        ultimately show ?thesis using ge False by (simp add: advance_def idx_pos_def)
      next
        case False
        then have "(m + 1 - rpt) mod ?t = ?x + 1" using step x by simp
        moreover have "rpt + ?x + 1 \<noteq> ?l" using False by simp
        ultimately show ?thesis using ge \<open>\<not> m + 1 < ?l\<close> by (simp add: advance_def idx_pos_def)
      qed
    qed
  qed
qed

lemma idx_pos_upper: "0 \<le> rpt \<Longrightarrow> rpt < int (length seq) \<Longrightarrow> idx_pos seq rpt m < int (length seq)"
proof -
  assume a: "0 \<le> rpt" "rpt < int (length seq)"
  have "(m - rpt) mod (int (length seq) - rpt) < int (length seq) - rpt"
    using a by simp
  then show ?thesis by (simp add: idx_pos_def)
qed

lemma idx_pos_lower: "0 \<le> rpt \<Longrightarrow> rpt < int (length seq) \<Longrightarrow> i0 \<le> 0 \<Longrightarrow> i0 \<le> m \<Longrightarrow> i0 \<le> idx_pos seq rpt m"
proof -
  assume a: "0 \<le> rpt" "rpt < int (length seq)" "i0 \<le> 0" "i0 \<le> m"
  have "0 \<le> (m - rpt) mod (int (length seq) - rpt)"
    using a by simp
  then have "i0 \<le> rpt + (m - rpt) mod (int (length seq) - rpt)"
    using a by linarith
  then show ?thesis using a by (simp add: idx_pos_def)
qed

lemma idx_pos_in_period:
  "0 \<le> rpt \<Longrightarrow> rpt < int (length seq) \<Longrightarrow> rpt \<le> m \<Longrightarrow> rpt \<le> idx_pos seq rpt m"
proof -
  assume a: "0 \<le> rpt" "rpt < int (length seq)" "rpt \<le> m"
  have "0 \<le> (m - rpt) mod (int (length seq) - rpt)"
    using a by simp
  then show ?thesis using a by (simp add: idx_pos_def)
qed

lemma pair_step_funpow:
  assumes "0 \<le> rpt_a" "rpt_a < int (length seq_a)" "0 \<le> rpt_b" "rpt_b < int (length seq_b)"
    and "ia \<le> 0" "ib \<le> 0"
  shows "(pair_step seq_a rpt_a seq_b rpt_b ^^ n) (ia, ib) =
           (idx_pos seq_a rpt_a (ia + int n), idx_pos seq_b rpt_b (ib + int n))"
proof (induction n)
  case 0
  then show ?case using assms by (simp add: idx_pos_def)
next
  case (Suc n)
  have e: "ia + int (Suc n) = (ia + int n) + 1" "ib + int (Suc n) = (ib + int n) + 1"
    by simp_all
  let ?f = "pair_step seq_a rpt_a seq_b rpt_b"
  have "(?f ^^ Suc n) (ia, ib) = ?f ((?f ^^ n) (ia, ib))" by simp
  also have "\<dots> = ?f (idx_pos seq_a rpt_a (ia + int n), idx_pos seq_b rpt_b (ib + int n))"
    by (simp only: Suc)
  also have "\<dots> = (idx_pos seq_a rpt_a (ia + int n + 1), idx_pos seq_b rpt_b (ib + int n + 1))"
    by (simp only: pair_step_def fst_conv snd_conv
        advance_idx_pos [OF assms(1,2)] advance_idx_pos [OF assms(3,4)])
  finally show ?case by (simp only: e)
qed

lemma combine_loop_unfold:
  "combine_loop op seq_a rpt_a seq_b rpt_b (fst s) (snd s) seen seq =
     (case seen s of
        Some r \<Rightarrow> Some (Inr (seq, r))
      | None \<Rightarrow>
          (case (case (if fst s \<ge> 0 then py_index seq_a (fst s) else Inr 0) of
                   Inl e \<Rightarrow> Inl e
                 | Inr dig_a \<Rightarrow>
                     (case (if snd s \<ge> 0 then py_index seq_b (snd s) else Inr 0) of
                        Inl e \<Rightarrow> Inl e
                      | Inr dig_b \<Rightarrow> op dig_a dig_b)) of
             Inl e \<Rightarrow> Some (Inl e)
           | Inr v \<Rightarrow>
               combine_loop op seq_a rpt_a seq_b rpt_b
                 (fst (pair_step seq_a rpt_a seq_b rpt_b s)) (snd (pair_step seq_a rpt_a seq_b rpt_b s))
                 (seen(s \<mapsto> length seq)) (seq @ [v])))"
  by (subst combine_loop.simps) (simp add: pair_step_def advance_def split: option.splits sum.splits)

lemma digit_read:
  "idx < int (length seq) \<Longrightarrow>
   (if idx \<ge> 0 then py_index seq idx else Inr 0) = Inr (digit_or_0 seq idx)"
  by (simp add: py_index_def digit_or_0_def)

lemma combine_run:
  fixes seq_a seq_b :: "int list" and rpt_a rpt_b shr_a shr_b :: int
  assumes wf: "0 \<le> rpt_a" "rpt_a < int (length seq_a)" "0 \<le> rpt_b" "rpt_b < int (length seq_b)"
  defines "ia \<equiv> min 0 (shr_a - shr_b)" and "ib \<equiv> min 0 (shr_b - shr_a)"
  defines "st \<equiv> \<lambda>n. (idx_pos seq_a rpt_a (ia + int n), idx_pos seq_b rpt_b (ib + int n))"
  shows "\<exists>K r. padic_digitwise_op (\<lambda>x y. Inr (f x y)) (seq_a, rpt_a, shr_a) (seq_b, rpt_b, shr_b) =
            Some (Inr (map (\<lambda>n. f (digit_or_0 seq_a (fst (st n))) (digit_or_0 seq_b (snd (st n)))) [0..<K],
                       int r, max shr_a shr_b)) \<and>
          r < K \<and> st K = st r \<and> inj_on st {..<K} \<and>
          (\<forall>n\<ge>r. st n = st (r + (n - r) mod (K - r)))"
proof -
  let ?op = "\<lambda>x y. Inr (f x y) :: error + int"
  let ?L = "\<lambda>s. combine_loop ?op seq_a rpt_a seq_b rpt_b (fst s) (snd s)"
  let ?nxt = "pair_step seq_a rpt_a seq_b rpt_b"
  let ?g = "\<lambda>s. f (digit_or_0 seq_a (fst s)) (digit_or_0 seq_b (snd s))"
  let ?S = "{ia..<int (length seq_a)} \<times> {ib..<int (length seq_b)}"
  have i0: "ia \<le> 0" "ib \<le> 0" by (simp_all add: ia_def ib_def)
  have st: "\<And>n. (?nxt ^^ n) (ia, ib) = st n"
    unfolding st_def by (rule pair_step_funpow [OF wf i0])
  have unfold: "\<And>s seen seq. ?L s seen seq =
      (case seen s of
         Some r \<Rightarrow> Some (Inr (seq, r))
       | None \<Rightarrow> (case pair_out ?op seq_a seq_b s of
                    Inl e \<Rightarrow> Some (Inl e)
                  | Inr v \<Rightarrow> ?L (?nxt s) (seen(s \<mapsto> length seq)) (seq @ [v])))"
    unfolding pair_out_def by (rule combine_loop_unfold)
  have out: "\<And>n. pair_out ?op seq_a seq_b ((?nxt ^^ n) (ia, ib)) = Inr (?g ((?nxt ^^ n) (ia, ib)))"
  proof -
    fix n
    have da: "(if fst (st n) \<ge> 0 then py_index seq_a (fst (st n)) else Inr 0) =
        Inr (digit_or_0 seq_a (fst (st n)))"
      by (rule digit_read) (simp add: st_def idx_pos_upper wf)
    have db: "(if snd (st n) \<ge> 0 then py_index seq_b (snd (st n)) else Inr 0) =
        Inr (digit_or_0 seq_b (snd (st n)))"
      by (rule digit_read) (simp add: st_def idx_pos_upper wf)
    show "pair_out ?op seq_a seq_b ((?nxt ^^ n) (ia, ib)) = Inr (?g ((?nxt ^^ n) (ia, ib)))"
      unfolding st by (simp only: pair_out_def da db sum.case)
  qed
  have fin: "finite ?S" by simp
  have inS: "\<And>n. (?nxt ^^ n) (ia, ib) \<in> ?S"
    unfolding st
    by (simp add: st_def idx_pos_upper idx_pos_lower wf i0)
  obtain K r where run:
    "?L (ia, ib) Map.empty [] = Some (Inr (map (\<lambda>n. ?g ((?nxt ^^ n) (ia, ib))) [0..<K], r))"
    "r < K" "(?nxt ^^ K) (ia, ib) = (?nxt ^^ r) (ia, ib)"
    "inj_on (\<lambda>n. (?nxt ^^ n) (ia, ib)) {..<K}"
    using cycle_loop_total [where L = ?L and out = "pair_out ?op seq_a seq_b" and nxt = ?nxt
        and ?s0.0 = "(ia, ib)" and g = ?g and S = ?S, OF unfold out fin inS]
    by blast
  have "padic_digitwise_op ?op (seq_a, rpt_a, shr_a) (seq_b, rpt_b, shr_b) =
      Some (Inr (map (\<lambda>n. ?g (st n)) [0..<K], int r, max shr_a shr_b))"
    using run(1) unfolding st by (simp add: padic_digitwise_op_def ia_def ib_def)
  moreover have "st K = st r" using run(3) unfolding st .
  moreover have "inj_on st {..<K}" using run(4) unfolding st .
  moreover have "\<forall>n\<ge>r. st n = st (r + (n - r) mod (K - r))"
    using cycle_periodic [OF run(2,3)] unfolding st by blast
  ultimately show ?thesis using run(2) by blast
qed

lemma digit_or_0_idx_pos:
  assumes "0 \<le> rpt" "rpt < int (length seq)"
  shows "digit_or_0 seq (idx_pos seq rpt m) = (if m < 0 then 0 else digit_at (seq, rpt, shr) (nat m))"
proof (cases "m < int (length seq)")
  case True
  then show ?thesis by (auto simp: digit_or_0_def idx_pos_def digit_at_def)
next
  case False
  let ?t = "int (length seq) - rpt"
  have m: "0 \<le> m" "\<not> nat m < length seq" using False by simp_all
  have x: "0 \<le> (m - rpt) mod ?t" using assms by simp
  have "nat (rpt + (m - rpt) mod ?t) = nat rpt + nat ((m - rpt) mod ?t)"
    using assms x by (simp add: nat_add_distrib)
  also have "nat ((m - rpt) mod ?t) = nat (m - rpt) mod nat ?t"
    using assms False by (simp add: nat_mod_distrib)
  also have "nat (m - rpt) = nat m - nat rpt" by (simp add: nat_diff_distrib' assms m)
  also have "nat ?t = length seq - nat rpt" using assms by (simp add: nat_diff_distrib')
  finally have "nat (idx_pos seq rpt m) = nat rpt + (nat m - nat rpt) mod (length seq - nat rpt)"
    using False by (simp add: idx_pos_def)
  moreover have "0 \<le> idx_pos seq rpt m" using False assms x by (simp add: idx_pos_def)
  ultimately show ?thesis using m by (simp add: digit_or_0_def digit_at_def)
qed

section \<open>Claims about padic_digitwise_op\<close>

lemma place_digit_idx_pos:
  assumes "0 \<le> rpt" "rpt < int (length seq)"
  shows "digit_or_0 seq (idx_pos seq rpt (int n - (s - shr))) = place_digit (seq, rpt, shr) s n"
proof (cases "int n < s - shr")
  case True
  then show ?thesis
    by (simp add: digit_or_0_idx_pos [OF assms, of _ shr] place_digit_def)
next
  case False
  then show ?thesis
    by (simp add: digit_or_0_idx_pos [OF assms, of _ shr] place_digit_def)
qed

lemma combine_digits:
  fixes seq_a seq_b :: "int list" and rpt_a rpt_b shr_a shr_b :: int
  assumes "0 \<le> rpt_a" "rpt_a < int (length seq_a)" "0 \<le> rpt_b" "rpt_b < int (length seq_b)"
  shows "\<exists>seq rpt.
      padic_digitwise_op (\<lambda>x y. Inr (f x y)) (seq_a, rpt_a, shr_a) (seq_b, rpt_b, shr_b) =
        Some (Inr (seq, rpt, max shr_a shr_b)) \<and>
      0 \<le> rpt \<and> rpt < int (length seq) \<and>
      (\<forall>n. digit_at (seq, rpt, max shr_a shr_b) n =
             f (place_digit (seq_a, rpt_a, shr_a) (max shr_a shr_b) n)
               (place_digit (seq_b, rpt_b, shr_b) (max shr_a shr_b) n))"
proof -
  define ia ib where "ia = min 0 (shr_a - shr_b)" and "ib = min 0 (shr_b - shr_a)"
  define st where "st = (\<lambda>n. (idx_pos seq_a rpt_a (ia + int n), idx_pos seq_b rpt_b (ib + int n)))"
  define g where "g = (\<lambda>n. f (digit_or_0 seq_a (fst (st n))) (digit_or_0 seq_b (snd (st n))))"
  obtain K r where run:
    "padic_digitwise_op (\<lambda>x y. Inr (f x y)) (seq_a, rpt_a, shr_a) (seq_b, rpt_b, shr_b) =
       Some (Inr (map g [0..<K], int r, max shr_a shr_b))"
    "r < K" "\<forall>n\<ge>r. st n = st (r + (n - r) mod (K - r))"
    using combine_run [OF assms, where shr_a = shr_a and shr_b = shr_b and f = f]
    unfolding ia_def ib_def st_def g_def by blast
  have g: "g n = f (place_digit (seq_a, rpt_a, shr_a) (max shr_a shr_b) n)
                   (place_digit (seq_b, rpt_b, shr_b) (max shr_a shr_b) n)" for n
  proof -
    have a: "ia + int n = int n - (max shr_a shr_b - shr_a)"
      and b: "ib + int n = int n - (max shr_a shr_b - shr_b)"
      by (simp_all add: ia_def ib_def)
    show ?thesis
      unfolding g_def st_def fst_conv snd_conv a b
      by (simp only: place_digit_idx_pos [OF assms(1,2)] place_digit_idx_pos [OF assms(3,4)])
  qed
  have d: "digit_at (map g [0..<K], int r, max shr_a shr_b) n = g n" for n
  proof (cases "n < K")
    case True
    then show ?thesis by (simp add: digit_at_def)
  next
    case False
    let ?j = "r + (n - r) mod (K - r)"
    have "(n - r) mod (K - r) < K - r" using run(2) by simp
    then have j: "?j < K" using run(2) by linarith
    have "r \<le> n" using False run(2) by simp
    then have "st n = st ?j" using run(3) by blast
    then have "g n = g ?j" by (simp add: g_def)
    then show ?thesis using False j by (simp add: digit_at_def)
  qed
  show ?thesis
    apply (rule exI [of _ "map g [0..<K]"])
    apply (rule exI [of _ "int r"])
    using run(1,2) by (simp add: d g)
qed

text \<open>
  C2: for every digit operation \<open>f\<close> and every two expansions with
  \<open>0 \<le> rpt < len(seq)\<close>, \<open>padic_digitwise_op\<close> returns an expansion whose shift is
  \<open>max(shr_a, shr_b)\<close>, whose repeat index lies inside its digits, and whose digit at
  every place is \<open>f\<close> of the two operands' digits at that place, an operand counting as 0
  below its own first digit and repeating from its own \<open>rpt\<close> after its last.
\<close>

theorem padic_digitwise_op_digits:
  fixes seq_a seq_b :: "int list" and rpt_a rpt_b shr_a shr_b :: int
  assumes "0 \<le> rpt_a" "rpt_a < int (length seq_a)" "0 \<le> rpt_b" "rpt_b < int (length seq_b)"
  shows "\<exists>seq rpt.
      padic_digitwise_op (\<lambda>x y. Inr (f x y)) (seq_a, rpt_a, shr_a) (seq_b, rpt_b, shr_b) =
        Some (Inr (seq, rpt, max shr_a shr_b)) \<and>
      0 \<le> rpt \<and> rpt < int (length seq) \<and>
      (\<forall>n. digit_at (seq, rpt, max shr_a shr_b) n =
             f (place_digit (seq_a, rpt_a, shr_a) (max shr_a shr_b) n)
               (place_digit (seq_b, rpt_b, shr_b) (max shr_a shr_b) n))"
  using assms by (rule combine_digits)

theorem padic_digitwise_op_digits_witness:
  "\<exists>seq rpt.
      padic_digitwise_op (\<lambda>x y. Inr ((x + y) mod 2)) ([1, 0], 1, 0) ([1, 1, 0], 2, 1) =
        Some (Inr (seq, rpt, max 0 1)) \<and>
      0 \<le> rpt \<and> rpt < int (length seq) \<and>
      (\<forall>n. digit_at (seq, rpt, max 0 1) n =
             (place_digit ([1, 0], 1, 0) (max 0 1) n
               + place_digit ([1, 1, 0], 2, 1) (max 0 1) n) mod 2)"
  using padic_digitwise_op_digits [where seq_a = "[1, 0]" and rpt_a = 1 and shr_a = 0
      and seq_b = "[1, 1, 0]" and rpt_b = 2 and shr_b = 1 and f = "\<lambda>x y. (x + y) mod 2"]
  by simp

text \<open>
  C5, as stated, fails where the shifts differ: the operand with the smaller shift is
  padded with one zero digit per place of difference, and each of them costs an
  iteration. For \<open>([0], 0, 0)\<close> and \<open>([0], 0, 5)\<close> the loop runs 6 times (it appends
  6 digits), while \<open>len(A) + len(B) + periodA * periodB\<close> is 3.
\<close>

theorem padic_digitwise_op_bound_exceeded:
  "padic_digitwise_op (sum_op 2) ([0], 0, 0) ([0], 0, 5) =
     Some (Inr ([0, 0, 0, 0, 0, 0], 5, 5)) \<and>
   \<not> int (length [0, 0, 0, 0, 0, 0 :: int])
       \<le> int (length [0 :: int]) + int (length [0 :: int])
           + (int (length [0 :: int]) - 0) * (int (length [0 :: int]) - 0)"
  by code_simp

text \<open>
  C5, amended: for every digit operation and every two expansions with
  \<open>0 \<le> rpt < len(seq)\<close>, the loop of \<open>padic_digitwise_op\<close> halts, and the number of
  its iterations (one digit is appended per iteration) is at most
  \<open>len(A) + len(B) + periodA * periodB + |shr_a - shr_b|\<close>.
\<close>

theorem padic_digitwise_op_iterations:
  fixes seq_a seq_b :: "int list" and rpt_a rpt_b shr_a shr_b :: int
  assumes "0 \<le> rpt_a" "rpt_a < int (length seq_a)" "0 \<le> rpt_b" "rpt_b < int (length seq_b)"
  shows "\<exists>seq rpt.
      padic_digitwise_op (\<lambda>x y. Inr (f x y)) (seq_a, rpt_a, shr_a) (seq_b, rpt_b, shr_b) =
        Some (Inr (seq, rpt, max shr_a shr_b)) \<and>
      int (length seq) \<le> int (length seq_a) + int (length seq_b)
          + (int (length seq_a) - rpt_a) * (int (length seq_b) - rpt_b) + \<bar>shr_a - shr_b\<bar>"
proof -
  define ia ib where "ia = min 0 (shr_a - shr_b)" and "ib = min 0 (shr_b - shr_a)"
  define st where "st = (\<lambda>n. (idx_pos seq_a rpt_a (ia + int n), idx_pos seq_b rpt_b (ib + int n)))"
  define g where "g = (\<lambda>n. f (digit_or_0 seq_a (fst (st n))) (digit_or_0 seq_b (snd (st n))))"
  obtain K r where run:
    "padic_digitwise_op (\<lambda>x y. Inr (f x y)) (seq_a, rpt_a, shr_a) (seq_b, rpt_b, shr_b) =
       Some (Inr (map g [0..<K], int r, max shr_a shr_b))"
    "inj_on st {..<K}"
    using combine_run [OF assms, where shr_a = shr_a and shr_b = shr_b and f = f] unfolding ia_def ib_def st_def g_def by blast
  define T where "T = nat (max (rpt_a - ia) (rpt_b - ib))"
  let ?P = "{rpt_a..<int (length seq_a)} \<times> {rpt_b..<int (length seq_b)}"
  have "st ` {T..<K} \<subseteq> ?P"
  proof
    fix s assume "s \<in> st ` {T..<K}"
    then obtain n where n: "T \<le> n" "s = st n" by auto
    have "rpt_a \<le> ia + int n" "rpt_b \<le> ib + int n"
      using n(1) by (simp_all add: T_def)
    then show "s \<in> ?P"
      using assms by (simp add: n(2) st_def idx_pos_upper idx_pos_in_period)
  qed
  then have "card (st ` {T..<K}) \<le> card ?P"
    by (intro card_mono) auto
  moreover have "card (st ` {T..<K}) = K - T"
  proof -
    have "inj_on st {T..<K}" using run(2) by (rule inj_on_subset) auto
    then show ?thesis by (simp add: card_image)
  qed
  moreover have "int (card ?P) = (int (length seq_a) - rpt_a) * (int (length seq_b) - rpt_b)"
    using assms by (simp add: card_cartesian_product)
  ultimately have "int K - int T \<le> (int (length seq_a) - rpt_a) * (int (length seq_b) - rpt_b)"
    by linarith
  moreover have "int T \<le> int (length seq_a) + int (length seq_b) + \<bar>shr_a - shr_b\<bar>"
  proof -
    have "int T = max 0 (max (rpt_a - ia) (rpt_b - ib))" unfolding T_def by linarith
    then show ?thesis using assms unfolding ia_def ib_def by linarith
  qed
  ultimately have "int K \<le> int (length seq_a) + int (length seq_b)
      + (int (length seq_a) - rpt_a) * (int (length seq_b) - rpt_b) + \<bar>shr_a - shr_b\<bar>"
    by linarith
  then show ?thesis using run(1) by simp
qed

theorem padic_digitwise_op_iterations_witness:
  "\<exists>seq rpt.
      padic_digitwise_op (\<lambda>x y. Inr ((x + y) mod 2)) ([0], 0, 0) ([0], 0, 5) =
        Some (Inr (seq, rpt, max 0 5)) \<and>
      int (length seq) \<le> int (length [0 :: int]) + int (length [0 :: int])
          + (int (length [0 :: int]) - 0) * (int (length [0 :: int]) - 0) + \<bar>0 - 5\<bar>"
  using padic_digitwise_op_iterations [where seq_a = "[0]" and rpt_a = 0 and shr_a = 0
      and seq_b = "[0]" and rpt_b = 0 and shr_b = 5 and f = "\<lambda>x y. (x + y) mod 2"]
  by simp

section \<open>The loops of padic_from_rational\<close>

lemma is_prime_2: "is_prime 2" by (simp add: is_prime_def)

lemma is_prime_coprime:
  assumes "is_prime p" "\<not> p dvd d"
  shows "coprime d p"
proof -
  let ?g = "gcd d p"
  have p: "1 < p" using assms(1) by (simp add: is_prime_def)
  have g: "0 < ?g" using p by (simp add: gcd_pos_int)
  have le: "?g \<le> p" using p by (simp add: zdvd_imp_le)
  have "?g \<noteq> p" using assms(2) by (metis gcd_dvd1)
  moreover have "\<not> (2 \<le> ?g \<and> ?g \<le> p - 1)"
    using assms(1) by (auto simp: is_prime_def)
  ultimately have "?g = 1" using g le by linarith
  then show ?thesis by (simp add: coprime_iff_gcd_eq_1)
qed

lemma pow_inv_exists:
  assumes "is_prime p" "\<not> p dvd d"
  shows "\<exists>di. pow_inv d p = Inr di \<and> (d * di) mod p = 1"
proof -
  have p: "1 < p" using assms(1) by (simp add: is_prime_def)
  have "gcd d p = 1" using is_prime_coprime [OF assms] by (simp add: coprime_iff_gcd_eq_1)
  then obtain u v where uv: "u * d + v * p = 1" using bezout_int [of d p] by auto
  have "(d * u) mod p = (u * d + v * p) mod p" by (simp add: mult.commute)
  then have du: "(d * u) mod p = 1" using uv p by simp
  let ?x = "u mod p"
  have dx: "(d * ?x) mod p = 1 mod p" using du p by (simp add: mod_mult_right_eq)
  have "?x \<in> set [0..p - 1]" using p by simp
  then have "\<exists>x\<in>set [0..p - 1]. (d * x) mod p = 1 mod p" using dx by blast
  then have "find (\<lambda>x. (d * x) mod p = 1 mod p) [0..p - 1] \<noteq> None"
    by (simp only: find_None_iff not_not Bex_def)
  then obtain x where x: "find (\<lambda>x. (d * x) mod p = 1 mod p) [0..p - 1] = Some x" by auto
  then have "(d * x) mod p = 1 mod p" by (auto simp: find_Some_iff)
  then show ?thesis using x p by (simp add: pow_inv_def)
qed

lemma strip_p_run:
  assumes "0 < d" "1 < p" "0 \<le> shr0" "0 < shr0 \<longrightarrow> \<not> p dvd n"
  shows "\<exists>n' d' shr. strip_p p n d shr0 = Some (Inr (n', d', shr)) \<and> 0 < d' \<and> \<not> p dvd d' \<and>
           shr0 \<le> shr \<and> n * d' * p ^ nat (shr - shr0) = n' * d \<and> (0 < shr \<longrightarrow> \<not> p dvd n')"
  using assms
proof (induction "nat d" arbitrary: d n shr0 rule: less_induct)
  case less
  show ?case
  proof (cases "d mod p = 0")
    case False
    then have "strip_p p n d shr0 = Some (Inr (n, d, shr0))"
      using less.prems by (subst strip_p.simps) simp
    then show ?thesis using less.prems False by (auto simp: dvd_eq_mod_eq_0)
  next
    case True
    then have pd: "p dvd d" by (simp add: dvd_eq_mod_eq_0)
    have dpos: "0 < d div p" using less.prems pd by (simp add: pos_imp_zdiv_pos_iff zdvd_imp_le)
    have dless: "nat (d div p) < nat d"
      using less.prems dpos by (simp add: int_div_less_self)
    have dd: "d div p * p = d" using pd by simp
    show ?thesis
    proof (cases "n mod p = 0")
      case n0: True
      then have pn: "p dvd n" by (simp add: dvd_eq_mod_eq_0)
      then have s0: "shr0 = 0" using less.prems by auto
      have eq: "strip_p p n d shr0 = strip_p p (n div p) (d div p) shr0"
        using less.prems True n0 by (subst strip_p.simps) simp
      obtain n' d' shr where r: "strip_p p (n div p) (d div p) shr0 = Some (Inr (n', d', shr))"
          "0 < d'" "\<not> p dvd d'" "shr0 \<le> shr"
          "(n div p) * d' * p ^ nat (shr - shr0) = n' * (d div p)" "0 < shr \<longrightarrow> \<not> p dvd n'"
        using less.hyps [OF dless dpos less.prems(2,3), of "n div p"] s0 by auto
      have "n * d' * p ^ nat (shr - shr0) = (n div p) * d' * p ^ nat (shr - shr0) * p"
        using pn by simp
      also have "\<dots> = n' * (d div p) * p" using r(5) by simp
      also have "\<dots> = n' * d" using dd by (simp add: mult.assoc)
      finally show ?thesis using r eq by auto
    next
      case n1: False
      then have pn: "\<not> p dvd n" by (simp add: dvd_eq_mod_eq_0)
      have eq: "strip_p p n d shr0 = strip_p p n (d div p) (shr0 + 1)"
        using less.prems True n1 by (subst strip_p.simps) simp
      obtain n' d' shr where r: "strip_p p n (d div p) (shr0 + 1) = Some (Inr (n', d', shr))"
          "0 < d'" "\<not> p dvd d'" "shr0 + 1 \<le> shr"
          "n * d' * p ^ nat (shr - (shr0 + 1)) = n' * (d div p)" "0 < shr \<longrightarrow> \<not> p dvd n'"
        using less.hyps [OF dless dpos less.prems(2), of "shr0 + 1" n] less.prems(3) pn by auto
      have "nat (shr - shr0) = Suc (nat (shr - (shr0 + 1)))" using r(4) by simp
      then have "n * d' * p ^ nat (shr - shr0) = n * d' * p ^ nat (shr - (shr0 + 1)) * p"
        by simp
      also have "\<dots> = n' * (d div p) * p" using r(5) by simp
      also have "\<dots> = n' * d" using dd by (simp add: mult.assoc)
      finally show ?thesis using r eq by auto
    qed
  qed
qed

lemma digit_loop_unfold:
  "map_option Inr (digit_loop p d di s seen seq) =
     (case seen s of
        Some r \<Rightarrow> Some (Inr (seq, r))
      | None \<Rightarrow>
          (case (Inr ((s * di) mod p) :: error + int) of
             Inl e \<Rightarrow> Some (Inl e)
           | Inr v \<Rightarrow>
               map_option Inr (digit_loop p d di (digit_step p d di s)
                 (seen(s \<mapsto> length seq)) (seq @ [v]))))"
  by (subst digit_loop.simps) (simp add: digit_step_def split: option.splits)

lemma digit_step_bounded:
  assumes "0 < d" "1 < p" "d \<le> M" "\<bar>n\<bar> \<le> M"
  shows "\<bar>digit_step p d di n\<bar> \<le> M"
proof -
  let ?i = "(n * di) mod p"
  have i: "0 \<le> ?i" "?i \<le> p - 1" using assms(2) by simp_all
  have M: "0 \<le> M" using assms by linarith
  have "d * ?i \<le> M * (p - 1)"
    using i assms M by (intro mult_mono) simp_all
  then have lo: "- (M * p) \<le> n - d * ?i" using assms(4) by (simp add: algebra_simps)
  have "0 \<le> d * ?i" using i assms(1) by simp
  then have hi: "n - d * ?i \<le> M" using assms(4) by linarith
  have "(- (M * p)) div p \<le> (n - d * ?i) div p"
    using lo assms(2) by (intro zdiv_mono1) simp_all
  moreover have "(- (M * p)) div p = - M"
  proof -
    have "(- M) * p div p = - M" using assms(2) by (intro nonzero_mult_div_cancel_right) simp
    then show ?thesis by (simp only: mult_minus_left)
  qed
  moreover have "(n - d * ?i) div p \<le> M div p"
    using hi assms(2) by (intro zdiv_mono1) simp_all
  moreover have "M div p \<le> M" using M assms(2)
    by (metis div_by_1 less_imp_le zdiv_mono2 zero_less_one)
  ultimately show ?thesis by (simp add: digit_step_def)
qed

lemma digit_step_funpow_bounded:
  assumes "0 < d" "1 < p" "d \<le> M" "\<bar>n\<bar> \<le> M"
  shows "\<bar>(digit_step p d di ^^ k) n\<bar> \<le> M"
  by (induction k) (use assms in \<open>simp_all add: digit_step_bounded\<close>)

lemma digit_step_exact:
  assumes "(d * di) mod p = 1"
  shows "digit_step p d di n * p = n - d * ((n * di) mod p)"
proof -
  have "(n - d * ((n * di) mod p)) mod p = (n - d * (n * di)) mod p"
    by (metis mod_diff_right_eq mod_mult_right_eq)
  also have "\<dots> = (n * (1 - d * di)) mod p" by (simp add: algebra_simps)
  also have "\<dots> = (n * ((1 - d * di) mod p)) mod p" by (simp add: mod_mult_right_eq)
  also have "(1 - d * di) mod p = (1 - (d * di) mod p) mod p" by (simp add: mod_diff_right_eq)
  also have "\<dots> = 0" using assms by simp
  finally have "(n - d * ((n * di) mod p)) mod p = 0" by simp
  then show ?thesis by (simp add: digit_step_def dvd_eq_mod_eq_0 [symmetric])
qed

lemma digit_step_sum:
  assumes "(d * di) mod p = 1"
  shows "n = d * (\<Sum>m = 0..<k. (((digit_step p d di ^^ m) n * di) mod p) * p ^ m)
             + (digit_step p d di ^^ k) n * p ^ k"
proof (induction k)
  case 0
  then show ?case by simp
next
  case (Suc k)
  let ?st = "\<lambda>m. (digit_step p d di ^^ m) n"
  have "?st (Suc k) * p ^ Suc k = (digit_step p d di (?st k) * p) * p ^ k" by simp
  also have "\<dots> = (?st k - d * ((?st k * di) mod p)) * p ^ k"
    by (simp only: digit_step_exact [OF assms])
  finally have "?st (Suc k) * p ^ Suc k = ?st k * p ^ k - d * (((?st k * di) mod p) * p ^ k)"
    by (simp add: algebra_simps)
  then show ?case using Suc by (simp add: algebra_simps)
qed

lemma digit_loop_run:
  assumes "0 < d" "1 < p"
  shows "\<exists>K r. digit_loop p d di n Map.empty [] =
             Some (map (\<lambda>k. ((digit_step p d di ^^ k) n * di) mod p) [0..<K], r) \<and>
           r < K \<and> (digit_step p d di ^^ K) n = (digit_step p d di ^^ r) n"
proof -
  define M where "M = max \<bar>n\<bar> d"
  let ?L = "\<lambda>s seen seq. map_option Inr (digit_loop p d di s seen seq) ::
      (error + int list \<times> nat) option"
  have "\<exists>K r. ?L n Map.empty [] =
        Some (Inr (map (\<lambda>k. ((digit_step p d di ^^ k) n * di) mod p) [0..<K], r)) \<and>
      r < K \<and> (digit_step p d di ^^ K) n = (digit_step p d di ^^ r) n \<and>
      inj_on (\<lambda>k. (digit_step p d di ^^ k) n) {..<K} \<and> K \<le> card {- M..M}"
  proof (rule cycle_loop_total [where L = ?L and out = "\<lambda>s. Inr ((s * di) mod p)"
        and nxt = "digit_step p d di" and g = "\<lambda>s. (s * di) mod p" and S = "{- M..M}"])
    show "\<And>s seen seq. ?L s seen seq =
        (case seen s of
           Some r \<Rightarrow> Some (Inr (seq, r))
         | None \<Rightarrow> (case (Inr ((s * di) mod p) :: error + int) of
                      Inl e \<Rightarrow> Some (Inl e)
                    | Inr v \<Rightarrow> ?L (digit_step p d di s) (seen(s \<mapsto> length seq)) (seq @ [v])))"
      by (rule digit_loop_unfold)
    show "finite {- M..M}" by simp
    show "\<And>k. (digit_step p d di ^^ k) n \<in> {- M..M}"
    proof -
      fix k
      have "\<bar>(digit_step p d di ^^ k) n\<bar> \<le> M"
        by (rule digit_step_funpow_bounded [OF assms]) (simp_all add: M_def)
      then show "(digit_step p d di ^^ k) n \<in> {- M..M}" by auto
    qed
  qed simp
  then show ?thesis by auto
qed

lemma padic_from_rational_digits:
  assumes "0 < d" "is_prime p"
  shows "\<exists>n0 d0 di shr K r.
      padic_from_rational (n, d) p =
        Some (Inr (map (\<lambda>k. ((digit_step p d0 di ^^ k) n0 * di) mod p) [0..<K], int r, shr)) \<and>
      r < K \<and> (digit_step p d0 di ^^ K) n0 = (digit_step p d0 di ^^ r) n0 \<and>
      (d0 * di) mod p = 1 \<and> 0 < d0 \<and> 0 \<le> shr \<and> n * d0 * p ^ nat shr = n0 * d \<and>
      (0 < shr \<longrightarrow> \<not> p dvd n0) \<and> strip_p p n d 0 = Some (Inr (n0, d0, shr))"
proof -
  have p: "1 < p" using assms(2) by (simp add: is_prime_def)
  obtain n0 d0 shr where s: "strip_p p n d 0 = Some (Inr (n0, d0, shr))" "0 < d0" "\<not> p dvd d0"
      "0 \<le> shr" "n * d0 * p ^ nat (shr - 0) = n0 * d" "0 < shr \<longrightarrow> \<not> p dvd n0"
    using strip_p_run [OF assms(1) p, of 0 n] by auto
  obtain di where di: "pow_inv d0 p = Inr di" "(d0 * di) mod p = 1"
    using pow_inv_exists [OF assms(2) s(3)] by auto
  obtain K r where l: "digit_loop p d0 di n0 Map.empty [] =
        Some (map (\<lambda>k. ((digit_step p d0 di ^^ k) n0 * di) mod p) [0..<K], r)"
      "r < K" "(digit_step p d0 di ^^ K) n0 = (digit_step p d0 di ^^ r) n0"
    using digit_loop_run [OF s(2) p, of di n0] by auto
  have "padic_from_rational (n, d) p =
      Some (Inr (map (\<lambda>k. ((digit_step p d0 di ^^ k) n0 * di) mod p) [0..<K], int r, shr))"
    by (simp add: padic_from_rational_def s(1) di(1) l(1))
  then show ?thesis using l(2,3) di(2) s by auto
qed

lemma sum_map_upt:
  "j \<le> K \<Longrightarrow> (\<Sum>m = i..<j. map f [0..<K] ! m * p ^ m) = (\<Sum>m = i..<j. f m * (p::int) ^ m)"
  by (rule sum.cong) simp_all

lemma padic_from_rational_run:
  assumes "0 < d" "is_prime p"
  shows "\<exists>seq r shr.
      padic_from_rational (n, d) p = Some (Inr (seq, int r, shr)) \<and>
      r < length seq \<and> 0 \<le> shr \<and> (0 < shr \<longrightarrow> seq ! 0 \<noteq> 0) \<and>
      ((\<Sum>m = 0..<r. seq ! m * p ^ m) * (p ^ (length seq - r) - 1)
          - (\<Sum>m = r..<length seq. seq ! m * p ^ m)) * d =
        n * ((p ^ (length seq - r) - 1) * p ^ nat shr)"
proof -
  have p: "1 < p" using assms(2) by (simp add: is_prime_def)
  obtain n0 d0 di shr K r where run:
      "padic_from_rational (n, d) p =
        Some (Inr (map (\<lambda>k. ((digit_step p d0 di ^^ k) n0 * di) mod p) [0..<K], int r, shr))"
      "r < K" "(digit_step p d0 di ^^ K) n0 = (digit_step p d0 di ^^ r) n0"
      "(d0 * di) mod p = 1" "0 < d0" "0 \<le> shr" "n * d0 * p ^ nat shr = n0 * d"
      "0 < shr \<longrightarrow> \<not> p dvd n0"
    using padic_from_rational_digits [OF assms, of n] by blast
  define dig where "dig = (\<lambda>k. ((digit_step p d0 di ^^ k) n0 * di) mod p)"
  define seq where "seq = map dig [0..<K]"
  define A where "A = (\<Sum>m = 0..<r. dig m * p ^ m)"
  define C where "C = (\<Sum>m = r..<K. dig m * p ^ m)"
  define P where "P = p ^ (K - r)"
  define s where "s = (digit_step p d0 di ^^ r) n0"
  have len: "length seq = K" by (simp add: seq_def)
  have A: "(\<Sum>m = 0..<r. seq ! m * p ^ m) = A"
    unfolding seq_def A_def using run(2) by (intro sum_map_upt) simp
  have C: "(\<Sum>m = r..<length seq. seq ! m * p ^ m) = C"
    unfolding len unfolding seq_def C_def by (intro sum_map_upt) simp
  have e1: "n0 = d0 * A + s * p ^ r"
    unfolding A_def s_def dig_def by (rule digit_step_sum [OF run(4)])
  have "(\<Sum>m = 0..<K. dig m * p ^ m) = A + C"
    unfolding A_def C_def using run(2) by (simp add: sum.atLeastLessThan_concat)
  moreover have "n0 = d0 * (\<Sum>m = 0..<K. dig m * p ^ m) + s * p ^ K"
    unfolding s_def dig_def run(3) [symmetric] by (rule digit_step_sum [OF run(4)])
  ultimately have e2: "n0 = d0 * (A + C) + s * p ^ K" by simp
  have "p ^ K = p ^ r * P" unfolding P_def using run(2) by (simp add: power_add [symmetric])
  then have e3: "n0 = d0 * (A + C) + (s * p ^ r) * P" using e2 by simp
  have "s * p ^ r = n0 - d0 * A" using e1 by simp
  then have "n0 = d0 * (A + C) + (n0 - d0 * A) * P" using e3 by simp
  then have val: "n0 * (P - 1) = d0 * (A * (P - 1) - C)" by (simp add: algebra_simps)
  have "(A * (P - 1) - C) * d * d0 = (d0 * (A * (P - 1) - C)) * d" by (simp add: ac_simps)
  also have "\<dots> = (n0 * (P - 1)) * d" by (simp only: val)
  also have "\<dots> = (n0 * d) * (P - 1)" by (simp add: ac_simps)
  also have "\<dots> = (n * d0 * p ^ nat shr) * (P - 1)" using run(7) by simp
  finally have "((A * (P - 1) - C) * d) * d0 = (n * ((P - 1) * p ^ nat shr)) * d0"
    by (simp add: algebra_simps)
  then have main: "(A * (P - 1) - C) * d = n * ((P - 1) * p ^ nat shr)"
    using run(5) by simp
  have first: "0 < shr \<longrightarrow> seq ! 0 \<noteq> 0"
  proof
    assume "0 < shr"
    then have npn: "\<not> p dvd n0" using run(8) by simp
    have "\<not> p dvd di"
    proof
      assume "p dvd di"
      then have "(d0 * di) mod p = 0" by simp
      then show False using run(4) by simp
    qed
    then have "coprime di p" by (rule is_prime_coprime [OF assms(2)])
    then have "coprime p di" by (simp add: coprime_commute)
    then have "\<not> p dvd n0 * di" using npn by (simp add: coprime_dvd_mult_left_iff)
    then have "(n0 * di) mod p \<noteq> 0" by (simp add: dvd_eq_mod_eq_0)
    then show "seq ! 0 \<noteq> 0" using run(2) by (simp add: seq_def dig_def)
  qed
  have r1: "padic_from_rational (n, d) p = Some (Inr (seq, int r, shr))"
    using run(1) by (simp add: seq_def dig_def)
  have r2: "r < length seq" using run(2) len by simp
  have r3: "((\<Sum>m = 0..<r. seq ! m * p ^ m) * (p ^ (length seq - r) - 1)
          - (\<Sum>m = r..<length seq. seq ! m * p ^ m)) * d =
        n * ((p ^ (length seq - r) - 1) * p ^ nat shr)"
    using main by (simp only: A C C [unfolded len] len P_def)
  show ?thesis using r1 r2 r3 run(6) first by blast
qed

section \<open>Claims about padic_from_rational\<close>

text \<open>
  C8: for every rational with a positive denominator and every prime \<open>p\<close>,
  \<open>padic_from_rational\<close> returns an expansion: the first loop ends with a state and a
  denominator free of \<open>p\<close>, the inverse exists, and every state of the second loop lies
  between \<open>-M\<close> and \<open>M\<close> for \<open>M\<close> the larger of the reduced denominator and the
  absolute value of the first state, so that a state must come again.
\<close>

theorem padic_from_rational_terminates:
  assumes "0 < d" "is_prime p"
  shows "\<exists>x n0 d0 shr di.
      padic_from_rational (n, d) p = Some (Inr x) \<and>
      strip_p p n d 0 = Some (Inr (n0, d0, shr)) \<and> pow_inv d0 p = Inr di \<and>
      (\<forall>k. \<bar>(digit_step p d0 di ^^ k) n0\<bar> \<le> max \<bar>n0\<bar> d0)"
proof -
  have p: "1 < p" using assms(2) by (simp add: is_prime_def)
  obtain n0 d0 di shr K r where run:
      "padic_from_rational (n, d) p =
        Some (Inr (map (\<lambda>k. ((digit_step p d0 di ^^ k) n0 * di) mod p) [0..<K], int r, shr))"
      "(d0 * di) mod p = 1" "0 < d0" "strip_p p n d 0 = Some (Inr (n0, d0, shr))"
    using padic_from_rational_digits [OF assms, of n] by blast
  have "pow_inv d0 p \<noteq> Inl ValueError"
    using run(1,4) by (auto simp: padic_from_rational_def split: sum.splits)
  then obtain di' where di': "pow_inv d0 p = Inr di'"
    by (cases "pow_inv d0 p") (auto simp: pow_inv_def split: if_splits option.splits)
  have "\<bar>(digit_step p d0 di' ^^ k) n0\<bar> \<le> max \<bar>n0\<bar> d0" for k
    by (rule digit_step_funpow_bounded [OF run(3) p]) simp_all
  then show ?thesis using run(1,4) di' by blast
qed

theorem padic_from_rational_terminates_witness:
  "\<exists>x n0 d0 shr di.
      padic_from_rational (1, 3) 2 = Some (Inr x) \<and>
      strip_p 2 1 3 0 = Some (Inr (n0, d0, shr)) \<and> pow_inv d0 2 = Inr di \<and>
      (\<forall>k. \<bar>(digit_step 2 d0 di ^^ k) n0\<bar> \<le> max \<bar>n0\<bar> d0)"
  using padic_from_rational_terminates [of 3 2 1] by (simp add: is_prime_def)

section \<open>The value that simplify_padic keeps\<close>

text \<open>
  Merging a digit of the prefix into the repeating part and cutting the repeating part
  down to one of its periods both leave the rational value unchanged; in terms of
  \<open>numer\<close>, the numerators before and after stand in the ratio of the denominators
  \<open>p^t - 1\<close>.
\<close>

lemma py_index_last: "xs \<noteq> [] \<Longrightarrow> py_index xs (- 1) = Inr (xs ! (length xs - 1))"
  by (cases xs) (simp_all add: py_index_def nat_diff_distrib')

lemma numer_butlast:
  assumes "0 < r" "r < length seq" "seq ! (r - 1) = seq ! (length seq - 1)"
  shows "numer (butlast seq) (r - 1) p = numer seq r p"
proof -
  define K where "K = length seq"
  define x where "x = seq ! (r - 1)"
  define A' where "A' = (\<Sum>m = 0..<r - 1. seq ! m * p ^ m)"
  define T where "T = (\<Sum>m = r..<K - 1. seq ! m * p ^ m)"
  define P where "P = p ^ (K - r)"
  have K: "r < K" "0 < r" using assms by (simp_all add: K_def)
  have bl: "\<And>m. m < K - 1 \<Longrightarrow> butlast seq ! m = seq ! m"
    by (simp add: nth_butlast K_def)
  have a1: "(\<Sum>m = 0..<r - 1. butlast seq ! m * p ^ m) = A'"
    unfolding A'_def using K by (intro sum.cong) (simp_all add: bl)
  have c1: "(\<Sum>m = r - 1..<K - 1. butlast seq ! m * p ^ m) = x * p ^ (r - 1) + T"
  proof -
    have "(\<Sum>m = r - 1..<K - 1. butlast seq ! m * p ^ m) = (\<Sum>m = r - 1..<K - 1. seq ! m * p ^ m)"
      by (intro sum.cong) (simp_all add: bl)
    also have "\<dots> = seq ! (r - 1) * p ^ (r - 1) + (\<Sum>m = Suc (r - 1)..<K - 1. seq ! m * p ^ m)"
      using K by (intro sum.atLeast_Suc_lessThan) simp
    finally show ?thesis using K by (simp add: x_def T_def)
  qed
  have a2: "(\<Sum>m = 0..<r. seq ! m * p ^ m) = A' + x * p ^ (r - 1)"
  proof -
    have "(\<Sum>m = 0..<Suc (r - 1). seq ! m * p ^ m) = A' + x * p ^ (r - 1)"
      by (simp add: A'_def x_def)
    then show ?thesis using K by simp
  qed
  have c2: "(\<Sum>m = r..<K. seq ! m * p ^ m) = T + x * p ^ (K - 1)"
  proof -
    have "r \<le> K - 1" using K by simp
    then have "(\<Sum>m = r..<Suc (K - 1). seq ! m * p ^ m) = T + seq ! (K - 1) * p ^ (K - 1)"
      unfolding T_def by (rule sum.atLeastLessThan_Suc)
    moreover have "Suc (K - 1) = K" using K by simp
    ultimately have "(\<Sum>m = r..<K. seq ! m * p ^ m) = T + seq ! (K - 1) * p ^ (K - 1)"
      by simp
    then show ?thesis using assms(3) by (simp add: x_def K_def)
  qed
  have pw: "p ^ (r - 1) * P = p ^ (K - 1)"
    unfolding P_def using K by (simp add: power_add [symmetric])
  have len: "length (butlast seq) - (r - 1) = K - r" "length (butlast seq) = K - 1"
    using K by (simp_all add: K_def)
  have kr: "K - 1 - (r - 1) = K - r" using K by simp
  have "numer (butlast seq) (r - 1) p = A' * (P - 1) - (x * p ^ (r - 1) + T)"
    by (simp only: numer_def len(2) kr a1 c1 P_def)
  also have "\<dots> = (A' + x * p ^ (r - 1)) * (P - 1) - (T + x * (p ^ (r - 1) * P))"
    by (simp add: algebra_simps)
  also have "\<dots> = (A' + x * p ^ (r - 1)) * (P - 1) - (T + x * p ^ (K - 1))"
    by (simp only: pw)
  also have "\<dots> = numer seq r p"
    by (simp only: numer_def K_def [symmetric] a2 c2 P_def)
  finally show ?thesis .
qed

lemma merge_tail_run:
  assumes "0 \<le> rpt" "rpt < int (length seq)"
  shows "\<exists>seq' r'. merge_tail seq rpt = Inr (seq', int r') \<and> r' < length seq' \<and>
           length seq' - r' = length seq - nat rpt \<and>
           numer seq' r' p = numer seq (nat rpt) p \<and>
           ((\<forall>m. nat rpt \<le> m \<and> m < length seq \<longrightarrow> seq ! m = 0) \<longrightarrow>
            (\<forall>m. r' \<le> m \<and> m < length seq' \<longrightarrow> seq' ! m = 0))"
  using assms
proof (induction seq rpt rule: merge_tail.induct)
  case (1 seq rpt)
  have ne: "seq \<noteq> []" using "1.prems" by auto
  show ?case
  proof (cases "rpt > 0 \<and> seq ! (nat rpt - 1) = seq ! (length seq - 1)")
    case False
    have "merge_tail seq rpt = Inr (seq, rpt)"
    proof (cases "rpt > 0")
      case True
      then have "py_index seq (rpt - 1) = Inr (seq ! (nat rpt - 1))"
        using "1.prems" py_index_nat [of "nat rpt - 1" seq] by (simp add: nat_diff_distrib')
      then show ?thesis using True False py_index_last [OF ne]
        by (subst merge_tail.simps) simp
    next
      case False
      then show ?thesis by (subst merge_tail.simps) simp
    qed
    then show ?thesis using "1.prems"
      by (intro exI [of _ seq] exI [of _ "nat rpt"]) simp
  next
    case True
    then have pos: "rpt > 0" and eq: "seq ! (nat rpt - 1) = seq ! (length seq - 1)" by auto
    have i1: "py_index seq (rpt - 1) = Inr (seq ! (nat rpt - 1))"
      using "1.prems" pos py_index_nat [of "nat rpt - 1" seq] by (simp add: nat_diff_distrib')
    have i2: "py_index seq (- 1) = Inr (seq ! (length seq - 1))" by (rule py_index_last [OF ne])
    have step: "merge_tail seq rpt = merge_tail (butlast seq) (rpt - 1)"
      using pos eq by (subst merge_tail.simps) (simp add: i1 i2)
    have pre: "0 \<le> rpt - 1" "rpt - 1 < int (length (butlast seq))"
      using pos "1.prems" by simp_all
    obtain seq' r' where ih: "merge_tail (butlast seq) (rpt - 1) = Inr (seq', int r')"
        "r' < length seq'" "length seq' - r' = length (butlast seq) - nat (rpt - 1)"
        "numer seq' r' p = numer (butlast seq) (nat (rpt - 1)) p"
        "(\<forall>m. nat (rpt - 1) \<le> m \<and> m < length (butlast seq) \<longrightarrow> butlast seq ! m = 0) \<longrightarrow>
         (\<forall>m. r' \<le> m \<and> m < length seq' \<longrightarrow> seq' ! m = 0)"
      using "1.IH" [OF pos i1 i2 eq pre] by blast
    have n1: "nat (rpt - 1) = nat rpt - 1" using pos by (simp add: nat_diff_distrib')
    have num: "numer (butlast seq) (nat rpt - 1) p = numer seq (nat rpt) p"
      using pos "1.prems" eq by (intro numer_butlast) simp_all
    have zero: "(\<forall>m. nat rpt \<le> m \<and> m < length seq \<longrightarrow> seq ! m = 0) \<longrightarrow>
         (\<forall>m. nat (rpt - 1) \<le> m \<and> m < length (butlast seq) \<longrightarrow> butlast seq ! m = 0)"
    proof (intro impI allI)
      fix m
      assume z: "\<forall>m. nat rpt \<le> m \<and> m < length seq \<longrightarrow> seq ! m = 0"
        and m: "nat (rpt - 1) \<le> m \<and> m < length (butlast seq)"
      have last0: "seq ! (length seq - 1) = 0" using z "1.prems" ne by simp
      show "butlast seq ! m = 0"
      proof (cases "m = nat rpt - 1")
        case True
        then show ?thesis using m eq last0 by (simp add: nth_butlast)
      next
        case False
        then have "nat rpt \<le> m" using m n1 pos by linarith
        moreover have "m < length seq - 1" using m by simp
        then have "m < length seq" by linarith
        ultimately have "seq ! m = 0" using z by blast
        then show ?thesis using m by (simp add: nth_butlast)
      qed
    qed
    have "length (butlast seq) - nat (rpt - 1) = length seq - nat rpt"
      using pos "1.prems" n1 by simp
    then show ?thesis using ih zero num step n1
      by (intro exI [of _ seq'] exI [of _ r']) simp
  qed
qed

lemma all_match_upt:
  assumes "b \<le> length seq" "i \<le> a"
  shows "all_match seq (int i) (map int [a..<b]) = Inr (\<forall>j\<in>{a..<b}. seq ! j = seq ! (j - i))"
  using assms
proof (induction "b - a" arbitrary: a)
  case 0
  then show ?case by simp
next
  case (Suc k)
  then have lt: "a < b" by simp
  have l: "[a..<b] = a # [Suc a..<b]" using lt by (simp add: upt_conv_Cons)
  have i1: "py_index seq (int a) = Inr (seq ! a)" using lt Suc.prems by (simp add: py_index_nat)
  have e: "int a - int i = int (a - i)" using Suc.prems by simp
  have "a - i < length seq" using lt Suc.prems by simp
  then have "py_index seq (int (a - i)) = Inr (seq ! (a - i))" by (rule py_index_nat)
  then have i2: "py_index seq (int a - int i) = Inr (seq ! (a - i))" by (simp only: e)
  have ih: "all_match seq (int i) (map int [Suc a..<b]) =
      Inr (\<forall>j\<in>{Suc a..<b}. seq ! j = seq ! (j - i))"
    using Suc.hyps(1) [of "Suc a"] Suc.hyps(2) Suc.prems by simp
  have split: "(\<forall>j\<in>{a..<b}. seq ! j = seq ! (j - i)) \<longleftrightarrow>
      seq ! a = seq ! (a - i) \<and> (\<forall>j\<in>{Suc a..<b}. seq ! j = seq ! (j - i))"
    using lt by (auto simp: Suc_le_eq le_less)
  show ?case
    by (simp only: l list.map all_match.simps i1 i2 sum.case ih split) simp
qed

lemma min_period_run:
  assumes "\<forall>c\<in>set cands. 1 \<le> c \<and> r + c \<le> length seq"
  shows "\<exists>seq'. min_period seq (int r) (map int cands) = Inr seq' \<and>
           (seq' = seq \<or>
            (\<exists>c\<in>set cands. (length seq - r) mod c = 0 \<and>
               (\<forall>j\<in>{r + c..<length seq}. seq ! j = seq ! (j - c)) \<and> seq' = take (r + c) seq))"
  using assms
proof (induction cands)
  case Nil
  then show ?case by simp
next
  case (Cons i cands)
  then have i: "1 \<le> i" "r + i \<le> length seq" by simp_all
  have "\<forall>c\<in>set cands. 1 \<le> c \<and> r + c \<le> length seq" using Cons.prems by simp
  then have "\<exists>seq'. min_period seq (int r) (map int cands) = Inr seq' \<and>
      (seq' = seq \<or>
       (\<exists>c\<in>set cands. (length seq - r) mod c = 0 \<and>
          (\<forall>j\<in>{r + c..<length seq}. seq ! j = seq ! (j - c)) \<and> seq' = take (r + c) seq))"
    by (rule Cons.IH)
  then obtain seq' where ih0: "min_period seq (int r) (map int cands) = Inr seq' \<and>
      (seq' = seq \<or>
       (\<exists>c\<in>set cands. (length seq - r) mod c = 0 \<and>
          (\<forall>j\<in>{r + c..<length seq}. seq ! j = seq ! (j - c)) \<and> seq' = take (r + c) seq))" ..
  have ih: "min_period seq (int r) (map int cands) = Inr seq'"
      "seq' = seq \<or>
       (\<exists>c\<in>set cands. (length seq - r) mod c = 0 \<and>
          (\<forall>j\<in>{r + c..<length seq}. seq ! j = seq ! (j - c)) \<and> seq' = take (r + c) seq)"
    using ih0 by (rule conjunct1, rule conjunct2)
  have m: "(int (length seq) - int r) mod int i = 0 \<longleftrightarrow> (length seq - r) mod i = 0"
  proof -
    have "int (length seq) - int r = int (length seq - r)" using i by simp
    then show ?thesis by (simp only: zmod_int [symmetric] of_nat_eq_0_iff)
  qed
  have u: "[int r + int i..int (length seq) - 1] = map int [r + i..<length seq]"
    using upto_as_upt [of "r + i" "length seq"] by simp
  have am: "all_match seq (int i) [int r + int i..int (length seq) - 1] =
      Inr (\<forall>j\<in>{r + i..<length seq}. seq ! j = seq ! (j - i))"
    unfolding u by (rule all_match_upt) simp_all
  have sl: "slice_to seq (int r + int i) = take (r + i) seq"
    by (simp add: slice_to_def nat_add_distrib)
  show ?case
  proof (cases "(length seq - r) mod i = 0 \<and> (\<forall>j\<in>{r + i..<length seq}. seq ! j = seq ! (j - i))")
    case True
    then have a: "min_period seq (int r) (map int (i # cands)) = Inr (take (r + i) seq)"
      by (simp add: m am sl)
    have b: "\<exists>c\<in>set (i # cands). (length seq - r) mod c = 0 \<and>
        (\<forall>j\<in>{r + c..<length seq}. seq ! j = seq ! (j - c)) \<and> take (r + i) seq = take (r + c) seq"
      using True by (intro bexI [of _ i]) simp_all
    show ?thesis
      by (rule exI [of _ "take (r + i) seq"], rule conjI, rule a, rule disjI2, rule b)
  next
    case False
    then have "min_period seq (int r) (map int (i # cands)) = min_period seq (int r) (map int cands)"
      by (auto simp: m am)
    then have e: "min_period seq (int r) (map int (i # cands)) = Inr seq'" using ih(1) by simp
    have d: "seq' = seq \<or>
       (\<exists>c\<in>set (i # cands). (length seq - r) mod c = 0 \<and>
          (\<forall>j\<in>{r + c..<length seq}. seq ! j = seq ! (j - c)) \<and> seq' = take (r + c) seq)"
      using ih(2) by auto
    show ?thesis
      by (rule exI [of _ seq'], rule conjI, rule e, rule d)
  qed
qed

lemma periodic_nth:
  assumes "\<forall>j. r + i \<le> j \<and> j < L \<longrightarrow> seq ! j = (seq ! (j - i) :: int)" "r \<le> m" "m + q * i < L"
  shows "seq ! (m + q * i) = seq ! m"
  using assms(3)
proof (induction q)
  case 0
  then show ?case by simp
next
  case (Suc q)
  have "r + i \<le> m + Suc q * i" using assms(2) by simp
  then have "seq ! (m + Suc q * i) = seq ! (m + Suc q * i - i)" using assms(1) Suc.prems by blast
  also have "m + Suc q * i - i = m + q * i" by simp
  finally show ?case using Suc by simp
qed

lemma periodic_block_sum:
  fixes p :: int
  assumes "\<forall>j. r + i \<le> j \<and> j < r + q * i \<longrightarrow> seq ! j = (seq ! (j - i) :: int)"
  shows "(\<Sum>m = r..<r + q * i. seq ! m * p ^ m) =
           (\<Sum>m = r..<r + i. seq ! m * p ^ m) * (\<Sum>k = 0..<q. p ^ (k * i))"
  using assms
proof (induction q)
  case 0
  then show ?case by simp
next
  case (Suc q)
  let ?c0 = "\<Sum>m = r..<r + i. seq ! m * p ^ m"
  have ih: "(\<Sum>m = r..<r + q * i. seq ! m * p ^ m) = ?c0 * (\<Sum>k = 0..<q. p ^ (k * i))"
    using Suc by simp
  have "(\<Sum>m = r + q * i..<r + i + q * i. seq ! m * p ^ m) =
        (\<Sum>m = r..<r + i. seq ! (m + q * i) * p ^ (m + q * i))"
    by (rule sum.shift_bounds_nat_ivl)
  also have "\<dots> = (\<Sum>m = r..<r + i. seq ! m * p ^ m * p ^ (q * i))"
  proof (rule sum.cong)
    fix m assume "m \<in> {r..<r + i}"
    then have "seq ! (m + q * i) = seq ! m"
      by (intro periodic_nth [OF Suc.prems]) simp_all
    then show "seq ! (m + q * i) * p ^ (m + q * i) = seq ! m * p ^ m * p ^ (q * i)"
      by (simp add: power_add)
  qed simp
  also have "\<dots> = ?c0 * p ^ (q * i)" by (simp add: sum_distrib_right)
  finally have blk: "(\<Sum>m = r + q * i..<r + i + q * i. seq ! m * p ^ m) = ?c0 * p ^ (q * i)" .
  have e: "r + Suc q * i = r + i + q * i" by simp
  have "(\<Sum>m = r..<r + i + q * i. seq ! m * p ^ m) =
        (\<Sum>m = r..<r + q * i. seq ! m * p ^ m) + (\<Sum>m = r + q * i..<r + i + q * i. seq ! m * p ^ m)"
    by (rule sum.atLeastLessThan_concat [symmetric]) simp_all
  then have "(\<Sum>m = r..<r + Suc q * i. seq ! m * p ^ m) =
      ?c0 * (\<Sum>k = 0..<q. p ^ (k * i)) + ?c0 * p ^ (q * i)"
    by (simp only: e ih blk)
  then show ?case by (simp add: distrib_left)
qed

lemma geometric_blocks:
  fixes p :: int
  shows "p ^ (q * i) - 1 = (p ^ i - 1) * (\<Sum>k = 0..<q. p ^ (k * i))"
proof (induction q)
  case 0
  then show ?case by simp
next
  case (Suc q)
  let ?G = "\<Sum>k = 0..<q. p ^ (k * i)"
  have "(p ^ i - 1) * (\<Sum>k = 0..<Suc q. p ^ (k * i)) = (p ^ i - 1) * ?G + (p ^ i - 1) * p ^ (q * i)"
    by (simp add: distrib_left)
  also have "\<dots> = (p ^ (q * i) - 1) + (p ^ i - 1) * p ^ (q * i)" by (simp only: Suc)
  also have "\<dots> = p ^ i * p ^ (q * i) - 1" by (simp add: algebra_simps)
  also have "\<dots> = p ^ (Suc q * i) - 1" by (simp add: power_add)
  finally show ?case by simp
qed

lemma numer_take:
  fixes p :: int
  assumes "1 \<le> c" "r + c \<le> length seq" "(length seq - r) mod c = 0"
    "\<forall>j\<in>{r + c..<length seq}. seq ! j = seq ! (j - c)"
  shows "numer (take (r + c) seq) r p * (p ^ (length seq - r) - 1) =
         numer seq r p * (p ^ c - 1)"
proof -
  define q where "q = (length seq - r) div c"
  define A where "A = (\<Sum>m = 0..<r. seq ! m * p ^ m)"
  define C0 where "C0 = (\<Sum>m = r..<r + c. seq ! m * p ^ m)"
  define G where "G = (\<Sum>k = 0..<q. p ^ (k * c))"
  have "c dvd length seq - r" using assms(3) by (simp add: mod_eq_0_iff_dvd)
  then have t: "length seq - r = q * c" by (simp add: q_def)
  have len: "length seq = r + q * c" using t assms(2) by simp
  have per: "\<forall>j. r + c \<le> j \<and> j < r + q * c \<longrightarrow> seq ! j = seq ! (j - c)"
    using assms(4) len by simp
  have cf: "(\<Sum>m = r..<length seq. seq ! m * p ^ m) = C0 * G"
    unfolding len C0_def G_def by (rule periodic_block_sum [OF per])
  have pt: "p ^ (length seq - r) - 1 = (p ^ c - 1) * G"
    unfolding t G_def by (rule geometric_blocks)
  have lt: "length (take (r + c) seq) = r + c" using assms(2) by simp
  have a1: "(\<Sum>m = 0..<r. take (r + c) seq ! m * p ^ m) = A"
    unfolding A_def using assms(1) by (intro sum.cong) simp_all
  have c1: "(\<Sum>m = r..<r + c. take (r + c) seq ! m * p ^ m) = C0"
    unfolding C0_def by (intro sum.cong) simp_all
  have rc: "r + c - r = c" by simp
  have n1: "numer (take (r + c) seq) r p = A * (p ^ c - 1) - C0"
    by (simp only: numer_def lt rc a1 c1)
  have n2: "numer seq r p = A * ((p ^ c - 1) * G) - C0 * G"
    by (simp only: numer_def cf pt A_def)
  show ?thesis by (simp only: n1 n2 pt) (simp add: algebra_simps)
qed

lemma simplify_rational_cong:
  assumes "0 < d1" "0 < d2" "n1 * d2 = n2 * d1"
  shows "simplify_rational (n1, d1) = simplify_rational (n2, d2)"
proof -
  obtain a1 b1 where s1: "simplify_rational (n1, d1) = Inr (a1, b1)" "0 < b1" "coprime a1 b1"
      "a1 * d1 = n1 * b1"
    using simplify_rational_pos [OF assms(1), of n1] by blast
  obtain a2 b2 where s2: "simplify_rational (n2, d2) = Inr (a2, b2)" "0 < b2" "coprime a2 b2"
      "a2 * d2 = n2 * b2"
    using simplify_rational_pos [OF assms(2), of n2] by blast
  have "(a1 * b2) * (d1 * d2) = (a1 * d1) * (b2 * d2)" by (simp add: ac_simps)
  also have "\<dots> = (n1 * b1) * (b2 * d2)" by (simp only: s1(4))
  also have "\<dots> = (n1 * d2) * (b1 * b2)" by (simp add: ac_simps)
  also have "\<dots> = (n2 * d1) * (b1 * b2)" by (simp only: assms(3))
  also have "\<dots> = (n2 * b2) * (b1 * d1)" by (simp add: ac_simps)
  also have "\<dots> = (a2 * d2) * (b1 * d1)" by (simp only: s2(4))
  also have "\<dots> = (a2 * b1) * (d1 * d2)" by (simp add: ac_simps)
  finally have x: "a1 * b2 = a2 * b1" using assms(1,2) by simp
  have "b1 dvd a1 * b2" unfolding x by simp
  moreover have "coprime b1 a1" using s1(3) by (simp add: coprime_commute)
  ultimately have d12: "b1 dvd b2" by (simp add: coprime_dvd_mult_right_iff)
  have "b2 dvd a2 * b1" unfolding x [symmetric] by simp
  moreover have "coprime b2 a2" using s2(3) by (simp add: coprime_commute)
  ultimately have d21: "b2 dvd b1" by (simp add: coprime_dvd_mult_right_iff)
  have b: "b1 = b2" using d12 d21 s1(2) s2(2) by (intro zdvd_antisym_nonneg) simp_all
  then have "a1 = a2" using x s1(2) by simp
  then show ?thesis using s1(1) s2(1) b by simp
qed

lemma first_nonzero_none_stripped:
  assumes "seq \<noteq> []" "0 \<le> shr" "shr = 0 \<or> seq ! 0 \<noteq> 0"
  shows "(case first_nonzero (slice_to seq shr) of
            Some i \<Rightarrow> int i
          | None \<Rightarrow> min (int (length seq)) shr) = 0"
proof (cases "shr = 0")
  case True
  then show ?thesis by (simp add: slice_to_def)
next
  case False
  then have pos: "0 < shr" and nz: "seq ! 0 \<noteq> 0" using assms by auto
  obtain x xs where seq: "seq = x # xs" using assms(1) by (cases seq) auto
  obtain k where k: "nat shr = Suc k" using pos by (cases "nat shr") auto
  have "slice_to seq shr = x # take k xs" using pos by (simp add: slice_to_def seq k)
  then show ?thesis using nz by (simp add: seq)
qed

lemma candidates_upt:
  assumes "r \<le> K"
  shows "[1..(int K - int r) div 2] = map int [1..<(K - r) div 2 + 1]"
proof -
  have "int ((K - r) div 2 + 1) - 1 = (int K - int r) div 2"
    using assms by (simp add: of_nat_diff zdiv_int)
  then show ?thesis using upto_as_upt [of 1 "(K - r) div 2 + 1"] by simp
qed

lemma simplify_padic_run:
  fixes p :: int
  assumes "0 \<le> rpt" "rpt < int (length seq)" "0 \<le> shr" "shr = 0 \<or> seq ! 0 \<noteq> 0"
  shows "\<exists>seq' r'. simplify_padic (seq, rpt, shr) = Inr (seq', int r', shr) \<and> r' < length seq' \<and>
           numer seq' r' p * (p ^ (length seq - nat rpt) - 1) =
           numer seq (nat rpt) p * (p ^ (length seq' - r') - 1)"
proof -
  have ne: "seq \<noteq> []" using assms(1,2) by auto
  have fz: "(case first_nonzero (slice_to seq shr) of
            Some i \<Rightarrow> int i
          | None \<Rightarrow> min (int (length seq)) shr) = 0"
    by (rule first_nonzero_none_stripped [OF ne assms(3,4)])
  obtain seq1 r1 where m: "merge_tail seq rpt = Inr (seq1, int r1)" "r1 < length seq1"
      "length seq1 - r1 = length seq - nat rpt" "numer seq1 r1 p = numer seq (nat rpt) p"
    using merge_tail_run [OF assms(1,2), of p] by blast
  define T where "T = length seq1 - r1"
  have cands: "[1..(int (length seq1) - int r1) div 2] = map int [1..<T div 2 + 1]"
    unfolding T_def using m(2) by (intro candidates_upt) simp
  have allc: "\<forall>c\<in>set [1..<T div 2 + 1]. 1 \<le> c \<and> r1 + c \<le> length seq1"
  proof
    fix c assume "c \<in> set [1..<T div 2 + 1]"
    then have "1 \<le> c" "c \<le> T div 2" by auto
    then have "c \<le> T" by simp
    then show "1 \<le> c \<and> r1 + c \<le> length seq1" using \<open>1 \<le> c\<close> m(2) by (simp add: T_def)
  qed
  from min_period_run [OF allc]
  obtain seq2 where both: "min_period seq1 (int r1) (map int [1..<T div 2 + 1]) = Inr seq2 \<and>
      (seq2 = seq1 \<or>
       (\<exists>c\<in>set [1..<T div 2 + 1]. (length seq1 - r1) mod c = 0 \<and>
          (\<forall>j\<in>{r1 + c..<length seq1}. seq1 ! j = seq1 ! (j - c)) \<and> seq2 = take (r1 + c) seq1))" ..
  have mp: "min_period seq1 (int r1) (map int [1..<T div 2 + 1]) = Inr seq2"
    using both by (rule conjunct1)
  have alt: "seq2 = seq1 \<or>
       (\<exists>c\<in>set [1..<T div 2 + 1]. (length seq1 - r1) mod c = 0 \<and>
          (\<forall>j\<in>{r1 + c..<length seq1}. seq1 ! j = seq1 ! (j - c)) \<and> seq2 = take (r1 + c) seq1)"
    using both by (rule conjunct2)
  have sf: "slice_from seq 0 = seq" by (simp add: slice_from_def)
  have tl: "(0 = int (length seq)) = False" using ne by simp
  have "simplify_padic (seq, rpt, shr) =
      (case merge_tail (slice_from seq 0) (rpt - 0) of
         Inl e \<Rightarrow> Inl e
       | Inr (seq', rpt') \<Rightarrow>
           (case min_period seq' rpt' [1..(int (length seq') - rpt') div 2] of
              Inl e \<Rightarrow> Inl e
            | Inr seq'' \<Rightarrow> Inr (seq'', rpt', shr - 0)))"
    by (simp only: simplify_padic_def prod.case fz Let_def tl if_False)
  also have "\<dots> = Inr (seq2, int r1, shr)"
    by (simp only: sf diff_zero m(1) sum.case prod.case cands mp)
  finally have res: "simplify_padic (seq, rpt, shr) = Inr (seq2, int r1, shr)" .
  from alt show ?thesis
  proof
    assume e: "seq2 = seq1"
    have "numer seq2 r1 p * (p ^ (length seq - nat rpt) - 1) =
        numer seq (nat rpt) p * (p ^ (length seq2 - r1) - 1)"
      by (simp only: e m(3) m(4))
    then show ?thesis using res m(2) e by blast
  next
    assume "\<exists>c\<in>set [1..<T div 2 + 1]. (length seq1 - r1) mod c = 0 \<and>
          (\<forall>j\<in>{r1 + c..<length seq1}. seq1 ! j = seq1 ! (j - c)) \<and> seq2 = take (r1 + c) seq1"
    then obtain c where cin: "c \<in> set [1..<T div 2 + 1]"
      and crest: "(length seq1 - r1) mod c = 0 \<and>
        (\<forall>j\<in>{r1 + c..<length seq1}. seq1 ! j = seq1 ! (j - c)) \<and> seq2 = take (r1 + c) seq1" ..
    have c2: "(length seq1 - r1) mod c = 0" using crest by (rule conjunct1)
    have c3: "\<forall>j\<in>{r1 + c..<length seq1}. seq1 ! j = seq1 ! (j - c)"
      using crest by (rule conjunct2 [THEN conjunct1])
    have c4: "seq2 = take (r1 + c) seq1" using crest by (rule conjunct2 [THEN conjunct2])
    have "1 \<le> c \<and> r1 + c \<le> length seq1" using allc cin by (rule bspec)
    then have c1: "1 \<le> c" "r1 + c \<le> length seq1" by simp_all
    have nt: "numer (take (r1 + c) seq1) r1 p * (p ^ (length seq1 - r1) - 1) =
        numer seq1 r1 p * (p ^ c - 1)"
      by (rule numer_take [OF c1 c2 c3])
    have l2: "length seq2 = r1 + c" using c1(2) by (simp add: c4)
    then have l3: "length seq2 - r1 = c" by simp
    have "numer seq2 r1 p * (p ^ (length seq - nat rpt) - 1) =
        numer seq (nat rpt) p * (p ^ (length seq2 - r1) - 1)"
      using nt by (simp only: c4 [symmetric] l3 m(3) m(4))
    moreover have "r1 < length seq2" using l2 c1(1) by simp
    ultimately show ?thesis using res by blast
  qed
qed

section \<open>The round trip through the expansion\<close>

text \<open>
  C1, as stated, fails: \<open>rational_from_padic\<close> does not reduce its result. The rational
  \<open>1/1\<close> in base 3 becomes \<open>([1, 0], 1, 0)\<close>, which \<open>simplify_padic\<close> leaves as it
  is and \<open>rational_from_padic\<close> turns into \<open>(2, 2)\<close>, while \<open>simplify_rational\<close> of
  \<open>(1, 1)\<close> is \<open>(1, 1)\<close>.
\<close>

theorem round_trip_counterexample:
  "padic_from_rational (1, 1) 3 = Some (Inr ([1, 0], 1, 0)) \<and>
   simplify_padic ([1, 0], 1, 0) = Inr ([1, 0], 1, 0) \<and>
   rational_from_padic ([1, 0], 1, 0) 3 = Inr (2, 2) \<and>
   simplify_rational (1, 1) = Inr (1, 1) \<and>
   (Inr (2, 2) :: error + rational) \<noteq> Inr (1, 1)"
  by code_simp

text \<open>
  C1, amended: for every rational \<open>n/d\<close> with \<open>d > 0\<close> and every prime \<open>p\<close>,
  \<open>padic_from_rational\<close> returns an expansion, \<open>simplify_padic\<close> and
  \<open>rational_from_padic\<close> return on it, and \<open>simplify_rational\<close>, applied to that
  result as the main program does, gives the same pair as \<open>simplify_rational\<close> of
  \<open>(n, d)\<close>.
\<close>

theorem round_trip_normalized:
  assumes "0 < d" "is_prime p"
  shows "\<exists>x y q c. padic_from_rational (n, d) p = Some (Inr x) \<and> simplify_padic x = Inr y \<and>
           rational_from_padic y p = Inr q \<and>
           simplify_rational q = Inr c \<and> simplify_rational (n, d) = Inr c"
proof -
  have p: "1 < p" using assms(2) by (simp add: is_prime_def)
  obtain seq r shr where run: "padic_from_rational (n, d) p = Some (Inr (seq, int r, shr))"
      "r < length seq" "0 \<le> shr" "0 < shr \<longrightarrow> seq ! 0 \<noteq> 0"
      "((\<Sum>m = 0..<r. seq ! m * p ^ m) * (p ^ (length seq - r) - 1)
          - (\<Sum>m = r..<length seq. seq ! m * p ^ m)) * d =
        n * ((p ^ (length seq - r) - 1) * p ^ nat shr)"
    using padic_from_rational_run [OF assms, of n] by blast
  define P where "P = p ^ (length seq - r)"
  have val: "numer seq r p * d = n * ((P - 1) * p ^ nat shr)"
    using run(5) by (simp only: numer_def P_def)
  have z: "shr = 0 \<or> seq ! 0 \<noteq> 0" using run(3,4) by auto
  have "\<exists>seq' r'. simplify_padic (seq, int r, shr) = Inr (seq', int r', shr) \<and> r' < length seq' \<and>
           numer seq' r' p * (p ^ (length seq - nat (int r)) - 1) =
           numer seq (nat (int r)) p * (p ^ (length seq' - r') - 1)"
    using run(2) by (intro simplify_padic_run run(3) z) simp_all
  then obtain seq' r' where s: "simplify_padic (seq, int r, shr) = Inr (seq', int r', shr)"
      "r' < length seq'"
      "numer seq' r' p * (P - 1) = numer seq r p * (p ^ (length seq' - r') - 1)"
    unfolding P_def by auto
  define P' where "P' = p ^ (length seq' - r')"
  let ?D = "(P' - 1) * p ^ nat shr"
  have q: "rational_from_padic (seq', int r', shr) p = Inr (numer seq' r' p, ?D)"
    using rational_from_padic_formula [of "int r'" seq' shr p] s(2) run(3)
    by (simp add: numer_def P'_def)
  have P1: "1 < P" unfolding P_def using p run(2) by (intro one_less_power) simp_all
  have P'1: "1 < P'" unfolding P'_def using p s(2) by (intro one_less_power) simp_all
  have D: "0 < ?D" using P'1 p by simp
  have "(numer seq' r' p * d) * (P - 1) = (numer seq' r' p * (P - 1)) * d" by (simp add: ac_simps)
  also have "\<dots> = (numer seq r p * (P' - 1)) * d" by (simp only: s(3) P'_def)
  also have "\<dots> = (numer seq r p * d) * (P' - 1)" by (simp add: ac_simps)
  also have "\<dots> = (n * ((P - 1) * p ^ nat shr)) * (P' - 1)" by (simp only: val)
  also have "\<dots> = (n * ?D) * (P - 1)" by (simp add: ac_simps)
  finally have cross: "numer seq' r' p * d = n * ?D" using P1 by simp
  have cong: "simplify_rational (numer seq' r' p, ?D) = simplify_rational (n, d)"
    by (rule simplify_rational_cong [OF D assms(1) cross])
  obtain c where c: "simplify_rational (n, d) = Inr c"
    using simplify_rational_pos [OF assms(1), of n] by blast
  show ?thesis using run(1) s(1) q cong c by auto
qed

theorem round_trip_normalized_witness:
  "\<exists>x y q c. padic_from_rational (- 7, 12) 3 = Some (Inr x) \<and> simplify_padic x = Inr y \<and>
           rational_from_padic y 3 = Inr q \<and>
           simplify_rational q = Inr c \<and> simplify_rational (- 7, 12) = Inr c"
proof -
  have "is_prime 3" by (simp add: is_prime_def)
  then show ?thesis using round_trip_normalized [of 12 3 "- 7"] by simp
qed

section \<open>Non-negative integers in base 2\<close>

text \<open>
  For a non-negative integer \<open>a\<close> with the denominator 1 and \<open>p = 2\<close> the first loop
  of \<open>padic_from_rational\<close> does nothing, the state of the second loop is halved in every
  round, and the digits are the bits of \<open>a\<close>, followed by zeroes. Bitwise exclusive or
  is \<open>XOR\<close>.
\<close>

unbundle bit_operations_syntax

lemma strip_p_unit: "strip_p 2 a 1 0 = Some (Inr (a, 1, 0))"
  by (subst strip_p.simps) simp

lemma digit_odd_inverse:
  assumes "(di::int) mod 2 = 1"
  shows "(n * di) mod 2 = n mod 2"
proof -
  have "(n * di) mod 2 = (n * (di mod 2)) mod 2" by (simp add: mod_mult_right_eq)
  then show ?thesis using assms by simp
qed

lemma digit_step_half:
  assumes "(di::int) mod 2 = 1"
  shows "digit_step 2 1 di n = n div 2"
proof -
  have "n - n mod 2 = 2 * (n div 2)" by (rule minus_mod_eq_mult_div)
  then show ?thesis by (simp add: digit_step_def digit_odd_inverse [OF assms])
qed

lemma digit_step_half_funpow:
  assumes "(di::int) mod 2 = 1"
  shows "(digit_step 2 1 di ^^ k) n = n div 2 ^ k"
proof (induction k)
  case 0
  show ?case by simp
next
  case (Suc k)
  have "(digit_step 2 1 di ^^ Suc k) n = digit_step 2 1 di ((digit_step 2 1 di ^^ k) n)" by simp
  also have "\<dots> = (n div 2 ^ k) div 2" by (simp only: Suc digit_step_half [OF assms])
  also have "\<dots> = n div (2 ^ k * 2)" by (rule zdiv_zmult2_eq [symmetric]) simp
  finally show ?case by (simp add: mult.commute)
qed

lemma div_power_split:
  assumes "r \<le> m"
  shows "(a::int) div 2 ^ m = (a div 2 ^ r) div 2 ^ (m - r)"
proof -
  have "(2::int) ^ m = 2 ^ r * 2 ^ (m - r)" using assms by (simp add: power_add [symmetric])
  then show ?thesis by (simp add: zdiv_zmult2_eq)
qed

lemma zero_above:
  assumes "0 \<le> (a::int)" "r < K" "a div 2 ^ K = a div 2 ^ r"
  shows "a div 2 ^ r = 0"
proof (rule ccontr)
  assume nz: "a div 2 ^ r \<noteq> 0"
  have "0 \<le> a div 2 ^ r" using assms(1) by (simp add: pos_imp_zdiv_nonneg_iff)
  then have pos: "0 < a div 2 ^ r" using nz by simp
  have "(1::int) < 2 ^ (K - r)" using assms(2) by simp
  then have "(a div 2 ^ r) div 2 ^ (K - r) < a div 2 ^ r" by (rule int_div_less_self [OF pos])
  moreover have "a div 2 ^ K = (a div 2 ^ r) div 2 ^ (K - r)"
    using assms(2) by (intro div_power_split) simp
  ultimately show False using assms(3) by simp
qed

lemma padic_from_nonneg_int:
  assumes "0 \<le> a"
  shows "\<exists>seq r. padic_from_rational (a, 1) 2 = Some (Inr (seq, int r, 0)) \<and> r < length seq \<and>
           (\<forall>n. digit_at (seq, int r, 0) n = (a div 2 ^ n) mod 2)"
proof -
  have d1: "0 < (1::int)" by simp
  obtain n0 d0 di shr K r where run:
      "padic_from_rational (a, 1) 2 =
        Some (Inr (map (\<lambda>k. ((digit_step 2 d0 di ^^ k) n0 * di) mod 2) [0..<K], int r, shr))"
      "r < K" "(digit_step 2 d0 di ^^ K) n0 = (digit_step 2 d0 di ^^ r) n0"
      "(d0 * di) mod 2 = 1" "strip_p 2 a 1 0 = Some (Inr (n0, d0, shr))"
    using padic_from_rational_digits [OF d1 is_prime_2, of a] by blast
  have e: "n0 = a" "d0 = 1" "shr = 0" using run(5) by (simp_all add: strip_p_unit)
  have di: "di mod 2 = 1" using run(4) by (simp add: e)
  define seq where "seq = map (\<lambda>k. (a div 2 ^ k) mod 2) [0..<K]"
  have len: "length seq = K" by (simp add: seq_def)
  have "map (\<lambda>k. ((digit_step 2 d0 di ^^ k) n0 * di) mod 2) [0..<K] = seq"
    unfolding seq_def e by (simp add: digit_step_half_funpow [OF di] digit_odd_inverse [OF di])
  then have r1: "padic_from_rational (a, 1) 2 = Some (Inr (seq, int r, 0))"
    using run(1) by (simp add: e)
  have "a div 2 ^ K = a div 2 ^ r" using run(3) by (simp add: e digit_step_half_funpow [OF di])
  then have z: "a div 2 ^ r = 0" by (rule zero_above [OF assms run(2)])
  have zm: "a div 2 ^ m = 0" if "r \<le> m" for m
    by (simp add: div_power_split [OF that] z)
  have d: "digit_at (seq, int r, 0) n = (a div 2 ^ n) mod 2" for n
  proof (cases "n < K")
    case True
    then show ?thesis by (simp add: digit_at_def seq_def)
  next
    case False
    let ?j = "r + (n - r) mod (K - r)"
    have "(n - r) mod (K - r) < K - r" using run(2) by simp
    then have j: "?j < K" using run(2) by linarith
    have rn: "r \<le> n" using False run(2) by simp
    have "digit_at (seq, int r, 0) n = seq ! ?j" using False by (simp add: digit_at_def len)
    also have "\<dots> = (a div 2 ^ ?j) mod 2" using j by (simp add: seq_def)
    also have "\<dots> = 0" by (simp add: zm)
    finally show ?thesis by (simp add: zm [OF rn])
  qed
  show ?thesis using r1 run(2) d len by blast
qed

lemma bits_sum: "(\<Sum>m = 0..<r. ((c::int) div 2 ^ m) mod 2 * 2 ^ m) = c mod 2 ^ r"
proof (induction r)
  case 0
  show ?case by simp
next
  case (Suc r)
  have "c mod (2 ^ r * 2) = 2 ^ r * (c div 2 ^ r mod 2) + c mod 2 ^ r"
    by (rule zmod_zmult2_eq) simp
  then have "c mod 2 ^ Suc r = 2 ^ r * (c div 2 ^ r mod 2) + c mod 2 ^ r"
    by (simp add: mult.commute)
  then show ?case using Suc by simp
qed

lemma xor_digit:
  "((a XOR b) div 2 ^ n) mod 2 = ((a div 2 ^ n) mod 2 + (b div 2 ^ n) mod 2) mod (2::int)"
proof -
  have o: "(x div 2 ^ n) mod 2 = of_bool (bit x n)" for x :: int
    by (simp add: bit_iff_odd of_bool_odd_eq_mod_2)
  show ?thesis by (simp add: o bit_xor_iff)
qed

lemma binary_digits_value:
  assumes "0 \<le> c" "r < length seq" "\<forall>n. digit_at (seq, int r, s) n = (c div 2 ^ n) mod 2"
  shows "(\<forall>m. r \<le> m \<and> m < length seq \<longrightarrow> seq ! m = 0) \<and> (\<Sum>m = 0..<r. seq ! m * 2 ^ m) = c"
proof -
  define K where "K = length seq"
  have rK: "r < K" using assms(2) by (simp add: K_def)
  have dg: "digit_at (seq, int r, s) n = (c div 2 ^ n) mod 2" for n using assms(3) by blast
  have big: "c div 2 ^ n = 0" if "nat c \<le> n" for n
  proof -
    have "int (nat c) < int (2 ^ nat c)" by (simp only: of_nat_less_iff less_exp)
    then have "c < 2 ^ nat c" using assms(1) by simp
    also have "(2::int) ^ nat c \<le> 2 ^ n" using that by (simp add: power_increasing)
    finally show ?thesis using assms(1) by simp
  qed
  have wrap: "digit_at (seq, int r, s) n = seq ! (r + (n - r) mod (K - r))" if "r \<le> n" for n
  proof (cases "n < K")
    case True
    then have "(n - r) mod (K - r) = n - r" using that by simp
    then show ?thesis using True that by (simp add: digit_at_def K_def)
  next
    case False
    then show ?thesis by (simp add: digit_at_def K_def)
  qed
  have tail: "seq ! m = 0" if "r \<le> m" "m < K" for m
  proof -
    define n where "n = m + (nat c + 1) * (K - r)"
    have "1 \<le> K - r" using rK by simp
    then have "(nat c + 1) * 1 \<le> (nat c + 1) * (K - r)" by (rule mult_le_mono2)
    then have nc: "nat c \<le> n" by (simp add: n_def)
    have rn: "r \<le> n" using that by (simp add: n_def)
    have "n - r = (m - r) + (nat c + 1) * (K - r)" using that by (simp add: n_def)
    then have "(n - r) mod (K - r) = (m - r) mod (K - r)" by (simp only: mod_mult_self1)
    also have "\<dots> = m - r" using that by simp
    finally have "r + (n - r) mod (K - r) = m" using that by simp
    then have "digit_at (seq, int r, s) n = seq ! m" using wrap [OF rn] by simp
    moreover have "digit_at (seq, int r, s) n = 0" by (simp only: dg big [OF nc]) simp
    ultimately show ?thesis by simp
  qed
  have hi: "(c div 2 ^ m) mod 2 = 0" if "r \<le> m" for m
  proof -
    let ?j = "r + (m - r) mod (K - r)"
    have "(m - r) mod (K - r) < K - r" using rK by simp
    then have j: "?j < K" using rK by linarith
    have "(c div 2 ^ m) mod 2 = digit_at (seq, int r, s) m" by (simp only: dg)
    also have "\<dots> = seq ! ?j" by (rule wrap [OF that])
    also have "\<dots> = 0" by (rule tail [OF _ j]) simp
    finally show ?thesis .
  qed
  have top: "c div 2 ^ r = 0"
  proof (rule bit_eqI)
    fix n
    have "(c div 2 ^ r) div 2 ^ n = c div 2 ^ (r + n)"
      by (simp add: power_add zdiv_zmult2_eq)
    moreover have "(c div 2 ^ (r + n)) mod 2 = 0" by (rule hi) simp
    ultimately have "even ((c div 2 ^ r) div 2 ^ n)" by (simp add: even_iff_mod_2_eq_zero)
    then show "bit (c div 2 ^ r) n \<longleftrightarrow> bit (0::int) n" by (simp add: bit_iff_odd)
  qed
  have "(\<Sum>m = 0..<r. seq ! m * 2 ^ m) = (\<Sum>m = 0..<r. (c div 2 ^ m) mod 2 * 2 ^ m)"
  proof (rule sum.cong)
    fix m assume "m \<in> {0..<r}"
    then have "m < K" using rK by simp
    then have "digit_at (seq, int r, s) m = seq ! m" by (simp add: digit_at_def K_def)
    then show "seq ! m * 2 ^ m = (c div 2 ^ m) mod 2 * 2 ^ m" by (simp add: dg)
  qed simp
  also have "\<dots> = c mod 2 ^ r" by (rule bits_sum)
  also have "\<dots> = c"
  proof -
    have "c = 2 ^ r * (c div 2 ^ r) + c mod 2 ^ r" by simp
    then show ?thesis by (simp add: top)
  qed
  finally have "(\<Sum>m = 0..<r. seq ! m * 2 ^ m) = c" .
  then show ?thesis using tail by (simp add: K_def)
qed

lemma numer_zero_tail:
  assumes "\<forall>m. r \<le> m \<and> m < length seq \<longrightarrow> seq ! m = 0"
  shows "numer seq r p = (\<Sum>m = 0..<r. seq ! m * p ^ m) * (p ^ (length seq - r) - 1)"
proof -
  have "(\<Sum>m = r..<length seq. seq ! m * p ^ m) = 0" using assms by (intro sum.neutral) simp
  then show ?thesis by (simp add: numer_def)
qed

lemma min_period_zero_tail:
  assumes "r < length seq" "\<forall>m. r \<le> m \<and> m < length seq \<longrightarrow> seq ! m = 0"
  shows "min_period seq (int r) [1..(int (length seq) - int r) div 2] = Inr (take (Suc r) seq)"
proof (cases "length seq = Suc r")
  case True
  then have "(int (length seq) - int r) div 2 = 0" by simp
  then have "[1..(int (length seq) - int r) div 2] = []" by simp
  then show ?thesis using True by simp
next
  case False
  define T where "T = length seq - r"
  have T: "2 \<le> T" using False assms(1) by (simp add: T_def)
  then have "1 < T div 2 + 1" by simp
  then have "[1..<T div 2 + 1] = 1 # [Suc 1..<T div 2 + 1]" by (rule upt_conv_Cons)
  moreover have "[1..(int (length seq) - int r) div 2] = map int [1..<T div 2 + 1]"
    unfolding T_def using assms(1) by (intro candidates_upt) simp
  ultimately have cands: "[1..(int (length seq) - int r) div 2] =
      1 # map int [Suc 1..<T div 2 + 1]"
    by (simp only: list.map of_nat_1)
  have u: "[int r + 1..int (length seq) - 1] = map int [r + 1..<length seq]"
    using upto_as_upt [of "r + 1" "length seq"] by (simp add: add.commute)
  have "all_match seq (int 1) (map int [r + 1..<length seq]) =
      Inr (\<forall>j\<in>{r + 1..<length seq}. seq ! j = seq ! (j - 1))"
    by (rule all_match_upt) simp_all
  moreover have "\<forall>j\<in>{r + 1..<length seq}. seq ! j = seq ! (j - 1)"
  proof
    fix j assume j: "j \<in> {r + 1..<length seq}"
    then have "seq ! j = 0" using assms(2) by simp
    moreover have "r \<le> j - 1 \<and> j - 1 < length seq" using j by auto
    then have "seq ! (j - 1) = 0" using assms(2) by blast
    ultimately show "seq ! j = seq ! (j - 1)" by simp
  qed
  ultimately have am: "all_match seq 1 [int r + 1..int (length seq) - 1] = Inr True"
    by (simp add: u)
  have sl: "slice_to seq (int r + 1) = take (Suc r) seq"
    by (simp add: slice_to_def nat_add_distrib)
  show ?thesis by (simp add: cands am sl)
qed

lemma simplify_padic_zero_tail:
  fixes p :: int
  assumes "0 \<le> rpt" "rpt < int (length seq)"
    "\<forall>m. nat rpt \<le> m \<and> m < length seq \<longrightarrow> seq ! m = 0" "1 < p"
  shows "\<exists>seq' r'. simplify_padic (seq, rpt, 0) = Inr (seq', int r', 0) \<and> length seq' = Suc r' \<and>
           seq' ! r' = 0 \<and>
           (\<Sum>m = 0..<r'. seq' ! m * p ^ m) = (\<Sum>m = 0..<nat rpt. seq ! m * p ^ m)"
proof -
  have ne: "seq \<noteq> []" using assms(1,2) by auto
  have fz: "(case first_nonzero (slice_to seq 0) of
            Some i \<Rightarrow> int i
          | None \<Rightarrow> min (int (length seq)) 0) = 0"
    by (rule first_nonzero_none_stripped [OF ne]) simp_all
  from merge_tail_run [OF assms(1,2), of p]
  obtain seq1 where "\<exists>r'. merge_tail seq rpt = Inr (seq1, int r') \<and> r' < length seq1 \<and>
           length seq1 - r' = length seq - nat rpt \<and>
           numer seq1 r' p = numer seq (nat rpt) p \<and>
           ((\<forall>m. nat rpt \<le> m \<and> m < length seq \<longrightarrow> seq ! m = 0) \<longrightarrow>
            (\<forall>m. r' \<le> m \<and> m < length seq1 \<longrightarrow> seq1 ! m = 0))" ..
  then obtain r1 where m0: "merge_tail seq rpt = Inr (seq1, int r1) \<and> r1 < length seq1 \<and>
           length seq1 - r1 = length seq - nat rpt \<and>
           numer seq1 r1 p = numer seq (nat rpt) p \<and>
           ((\<forall>m. nat rpt \<le> m \<and> m < length seq \<longrightarrow> seq ! m = 0) \<longrightarrow>
            (\<forall>m. r1 \<le> m \<and> m < length seq1 \<longrightarrow> seq1 ! m = 0))" ..
  have m1: "merge_tail seq rpt = Inr (seq1, int r1)" using m0 by (rule conjunct1)
  have m2: "r1 < length seq1" using m0 by (rule conjunct2 [THEN conjunct1])
  have m3: "length seq1 - r1 = length seq - nat rpt"
    using m0 by (rule conjunct2 [THEN conjunct2, THEN conjunct1])
  have m4: "numer seq1 r1 p = numer seq (nat rpt) p"
    using m0 by (rule conjunct2 [THEN conjunct2, THEN conjunct2, THEN conjunct1])
  have "(\<forall>m. nat rpt \<le> m \<and> m < length seq \<longrightarrow> seq ! m = 0) \<longrightarrow>
            (\<forall>m. r1 \<le> m \<and> m < length seq1 \<longrightarrow> seq1 ! m = 0)"
    using m0 by (rule conjunct2 [THEN conjunct2, THEN conjunct2, THEN conjunct2])
  then have z1: "\<forall>m. r1 \<le> m \<and> m < length seq1 \<longrightarrow> seq1 ! m = 0" using assms(3) by (rule mp)
  define P where "P = p ^ (length seq - nat rpt)"
  have "0 < length seq - nat rpt" using assms(1,2) by linarith
  then have P: "1 < P" unfolding P_def using assms(4) by simp
  have "(\<Sum>m = 0..<r1. seq1 ! m * p ^ m) * (P - 1) = numer seq1 r1 p"
    by (simp only: numer_zero_tail [OF z1] m3 P_def)
  also have "\<dots> = (\<Sum>m = 0..<nat rpt. seq ! m * p ^ m) * (P - 1)"
    by (simp only: m4 numer_zero_tail [OF assms(3)] P_def)
  finally have A: "(\<Sum>m = 0..<r1. seq1 ! m * p ^ m) = (\<Sum>m = 0..<nat rpt. seq ! m * p ^ m)"
    using P by simp
  have mp: "min_period seq1 (int r1) [1..(int (length seq1) - int r1) div 2] =
      Inr (take (Suc r1) seq1)"
    by (rule min_period_zero_tail [OF m2 z1])
  have sf: "slice_from seq 0 = seq" by (simp add: slice_from_def)
  have tl: "(0 = int (length seq)) = False" using ne by simp
  have "simplify_padic (seq, rpt, 0) =
      (case merge_tail (slice_from seq 0) (rpt - 0) of
         Inl e \<Rightarrow> Inl e
       | Inr (seq', rpt') \<Rightarrow>
           (case min_period seq' rpt' [1..(int (length seq') - rpt') div 2] of
              Inl e \<Rightarrow> Inl e
            | Inr seq'' \<Rightarrow> Inr (seq'', rpt', 0 - 0)))"
    by (simp only: simplify_padic_def prod.case fz Let_def tl if_False)
  also have "\<dots> = Inr (take (Suc r1) seq1, int r1, 0)"
    by (simp only: sf diff_zero m1 sum.case prod.case mp)
  finally have res: "simplify_padic (seq, rpt, 0) = Inr (take (Suc r1) seq1, int r1, 0)" .
  have l: "length (take (Suc r1) seq1) = Suc r1" using m2 by simp
  have z: "take (Suc r1) seq1 ! r1 = 0" using z1 m2 by simp
  have "(\<Sum>m = 0..<r1. take (Suc r1) seq1 ! m * p ^ m) = (\<Sum>m = 0..<r1. seq1 ! m * p ^ m)"
    by (intro sum.cong) simp_all
  then have s: "(\<Sum>m = 0..<r1. take (Suc r1) seq1 ! m * p ^ m) =
      (\<Sum>m = 0..<nat rpt. seq ! m * p ^ m)"
    by (simp only: A)
  show ?thesis
    by (rule exI [of _ "take (Suc r1) seq1"], rule exI [of _ r1], intro conjI res l z s)
qed

section \<open>The digit-wise sum in base 2\<close>

text \<open>
  C9: for all non-negative integers \<open>a\<close> and \<open>b\<close>, taken with the denominator 1 and
  \<open>p = 2\<close>, the two conversions, \<open>padic_digitwise_op\<close> with \<open>sum_op(2)\<close>,
  \<open>simplify_padic\<close> and \<open>rational_from_padic\<close> all return, and the rational returned is
  the pair of \<open>a XOR b\<close> and the denominator 1, which \<open>simplify_rational\<close> leaves as it
  is. For \<open>a = 5\<close> and \<open>b = 3\<close> this is \<open>6/1\<close>.
\<close>

theorem xor_of_integers:
  assumes "0 \<le> a" "0 \<le> b"
  shows "\<exists>x y z w. padic_from_rational (a, 1) 2 = Some (Inr x) \<and>
      padic_from_rational (b, 1) 2 = Some (Inr y) \<and>
      padic_digitwise_op (sum_op 2) x y = Some (Inr z) \<and> simplify_padic z = Inr w \<and>
      rational_from_padic w 2 = Inr (a XOR b, 1) \<and>
      simplify_rational (a XOR b, 1) = Inr (a XOR b, 1)"
proof -
  obtain sa ra where A: "padic_from_rational (a, 1) 2 = Some (Inr (sa, int ra, 0))"
      "ra < length sa" "\<forall>n. digit_at (sa, int ra, 0) n = (a div 2 ^ n) mod 2"
    using padic_from_nonneg_int [OF assms(1)] by blast
  obtain sb rb where B: "padic_from_rational (b, 1) 2 = Some (Inr (sb, int rb, 0))"
      "rb < length sb" "\<forall>n. digit_at (sb, int rb, 0) n = (b div 2 ^ n) mod 2"
    using padic_from_nonneg_int [OF assms(2)] by blast
  have op: "sum_op 2 = (\<lambda>x y. Inr ((x + y) mod 2))" by (simp add: sum_op_def fun_eq_iff)
  have "\<exists>seq rpt.
      padic_digitwise_op (\<lambda>x y. Inr ((x + y) mod 2)) (sa, int ra, 0) (sb, int rb, 0) =
        Some (Inr (seq, rpt, max 0 0)) \<and>
      0 \<le> rpt \<and> rpt < int (length seq) \<and>
      (\<forall>n. digit_at (seq, rpt, max 0 0) n =
             (place_digit (sa, int ra, 0) (max 0 0) n + place_digit (sb, int rb, 0) (max 0 0) n) mod 2)"
    using A(2) B(2) by (intro combine_digits) simp_all
  then obtain sz rz where Z: "padic_digitwise_op (sum_op 2) (sa, int ra, 0) (sb, int rb, 0) =
        Some (Inr (sz, rz, 0))" "0 \<le> rz" "rz < int (length sz)"
      "\<forall>n. digit_at (sz, rz, 0) n =
             (place_digit (sa, int ra, 0) 0 n + place_digit (sb, int rb, 0) 0 n) mod 2"
    unfolding op by auto
  have pd: "place_digit (s, r, 0) 0 n = digit_at (s, r, 0) n" for s r n
    by (simp add: place_digit_def)
  have c0: "0 \<le> a XOR b" using assms by simp
  have rz: "int (nat rz) = rz" "nat rz < length sz" using Z(2,3) by simp_all
  have dz0: "\<forall>n. digit_at (sz, rz, 0) n = ((a XOR b) div 2 ^ n) mod 2"
    using Z(4) A(3) B(3) by (simp add: pd xor_digit)
  have dz: "\<forall>n. digit_at (sz, int (nat rz), 0) n = ((a XOR b) div 2 ^ n) mod 2"
    unfolding rz(1) by (rule dz0)
  have val: "(\<forall>m. nat rz \<le> m \<and> m < length sz \<longrightarrow> sz ! m = 0) \<and>
      (\<Sum>m = 0..<nat rz. sz ! m * 2 ^ m) = a XOR b"
    by (rule binary_digits_value [OF c0 rz(2) dz])
  have "\<exists>seq' r'. simplify_padic (sz, rz, 0) = Inr (seq', int r', 0) \<and> length seq' = Suc r' \<and>
           seq' ! r' = 0 \<and>
           (\<Sum>m = 0..<r'. seq' ! m * 2 ^ m) = (\<Sum>m = 0..<nat rz. sz ! m * 2 ^ m)"
    using val by (intro simplify_padic_zero_tail Z(2,3)) simp_all
  then obtain sw rw where W: "simplify_padic (sz, rz, 0) = Inr (sw, int rw, 0)"
      "length sw = Suc rw" "sw ! rw = 0" "(\<Sum>m = 0..<rw. sw ! m * 2 ^ m) = a XOR b"
    using val by auto
  have "rational_from_padic (sw, int rw, 0) 2 =
     Inr ((\<Sum>m = 0..<nat (int rw). sw ! m * 2 ^ m) * (2 ^ (length sw - nat (int rw)) - 1)
            - (\<Sum>m = nat (int rw)..<length sw. sw ! m * 2 ^ m),
          (2 ^ (length sw - nat (int rw)) - 1) * 2 ^ nat 0)"
    by (rule rational_from_padic_formula) (simp_all add: W(2))
  then have q: "rational_from_padic (sw, int rw, 0) 2 = Inr (a XOR b, 1)"
    by (simp add: W(2,3,4))
  have sr: "simplify_rational (a XOR b, 1) = Inr (a XOR b, 1)"
    by (simp add: simplify_rational_def)
  show ?thesis using A(1) B(1) Z(1) W(1) q sr by blast
qed

theorem xor_of_integers_witness:
  "\<exists>x y z w. padic_from_rational (5, 1) 2 = Some (Inr x) \<and>
      padic_from_rational (3, 1) 2 = Some (Inr y) \<and>
      padic_digitwise_op (sum_op 2) x y = Some (Inr z) \<and> simplify_padic z = Inr w \<and>
      rational_from_padic w 2 = Inr (6, 1) \<and>
      simplify_rational (6, 1) = Inr (6, 1)"
  using xor_of_integers [of 5 3] by simp

section \<open>The period that simplify_padic returns\<close>

text \<open>
  A period \<open>j\<close> of the repeating digits gives the period \<open>gcd(j, t)\<close>, a divisor of the
  period length \<open>t\<close>, and a divisor below \<open>t\<close> is at most \<open>t // 2\<close>: it is one of the
  candidates of the \<open>for i\<close> loop, which stops at the first candidate that fits. So
  whenever \<open>simplify_padic\<close> returns an expansion whose \<open>rpt\<close> is not negative, no
  period below its period length reproduces its repeating digits.
\<close>

lemma has_period_nth:
  "has_period w j \<longleftrightarrow> (\<forall>k<length w. w ! ((k + j) mod length w) = w ! k)"
  by (auto simp: has_period_def list_all_iff)

lemma shift_multiple:
  assumes "\<forall>k<T. w ! ((k + j) mod T) = w ! k" "k < (T::nat)"
  shows "w ! ((k + x * j) mod T) = w ! k"
proof (induction x)
  case 0
  then show ?case using assms(2) by simp
next
  case (Suc x)
  have T: "0 < T" using assms(2) by simp
  let ?k = "(k + x * j) mod T"
  have "?k < T" using T by simp
  then have "w ! ((?k + j) mod T) = w ! ?k" using assms(1) by blast
  moreover have "(?k + j) mod T = (k + x * j + j) mod T" by (rule mod_add_left_eq)
  moreover have "k + x * j + j = k + Suc x * j" by simp
  ultimately show ?case using Suc by simp
qed

lemma shift_gcd:
  assumes "\<forall>k<T. w ! ((k + j) mod T) = w ! k" "0 < j" "k < (T::nat)"
  shows "w ! ((k + gcd j T) mod T) = w ! k"
proof -
  obtain x y where b: "j * x = T * y + gcd j T" using bezout_nat [of j T] assms(2) by auto
  have "k + x * j = k + gcd j T + T * y" using b by (simp add: mult.commute)
  moreover have "(k + gcd j T + T * y) mod T = (k + gcd j T) mod T" by (rule mod_mult_self2)
  ultimately have "(k + x * j) mod T = (k + gcd j T) mod T" by (simp only:)
  then show ?thesis using shift_multiple [OF assms(1,3), of x] by simp
qed

lemma shift_blocks:
  assumes "\<forall>k<T. w ! ((k + g) mod T) = w ! k"
  shows "i + q * g < (T::nat) \<Longrightarrow> w ! (i + q * g) = w ! i"
proof (induction q)
  case 0
  show ?case by simp
next
  case (Suc q)
  have lt: "i + q * g < T" using Suc.prems by simp
  then have "w ! ((i + q * g + g) mod T) = w ! (i + q * g)" using assms by blast
  moreover have "i + q * g + g = i + Suc q * g" by simp
  moreover have "(i + Suc q * g) mod T = i + Suc q * g" using Suc.prems by simp
  ultimately show ?case using Suc.IH [OF lt] by simp
qed

lemma period_divisor:
  assumes "has_period w j" "1 \<le> j"
  shows "\<exists>g. 1 \<le> g \<and> g dvd length w \<and> g dvd j \<and> (\<forall>k<length w. w ! k = w ! (k mod g))"
proof -
  let ?T = "length w" and ?g = "gcd j (length w)"
  have p: "\<forall>k<?T. w ! ((k + j) mod ?T) = w ! k" using assms(1) by (simp add: has_period_nth)
  have j: "0 < j" using assms(2) by simp
  have inv: "\<forall>k<?T. w ! ((k + ?g) mod ?T) = w ! k"
    using shift_gcd [OF p j] by blast
  have g: "0 < ?g" using j by simp
  have "w ! k = w ! (k mod ?g)" if "k < ?T" for k
  proof -
    have e: "k mod ?g + (k div ?g) * ?g = k" by (rule mod_div_mult_eq)
    then have "k mod ?g + (k div ?g) * ?g < ?T" using that by simp
    then have "w ! (k mod ?g + (k div ?g) * ?g) = w ! (k mod ?g)" by (rule shift_blocks [OF inv])
    then show ?thesis by (simp only: e)
  qed
  moreover have "1 \<le> ?g" using g by linarith
  ultimately have "1 \<le> ?g \<and> ?g dvd ?T \<and> ?g dvd j \<and> (\<forall>k<?T. w ! k = w ! (k mod ?g))"
    by simp
  then show ?thesis by (rule exI)
qed

lemma min_period_first:
  fixes seq :: "int list"
  defines "fit \<equiv> \<lambda>r c. (length seq - r) mod c = 0 \<and> (\<forall>j\<in>{r + c..<length seq}. seq ! j = seq ! (j - c))"
  assumes "1 \<le> a" "r + b \<le> length seq + 1"
  shows "\<exists>seq'. min_period seq (int r) (map int [a..<b]) = Inr seq' \<and>
           ((seq' = seq \<and> (\<forall>c\<in>{a..<b}. \<not> fit r c)) \<or>
            (\<exists>c\<in>{a..<b}. fit r c \<and> seq' = take (r + c) seq \<and> (\<forall>c'\<in>{a..<c}. \<not> fit r c')))"
  using assms(2,3)
proof (induction "b - a" arbitrary: a)
  case 0
  then have "[a..<b] = []" "{a..<b} = {}" by simp_all
  then show ?case by simp
next
  case (Suc n)
  then have lt: "a < b" by simp
  have l: "[a..<b] = a # [Suc a..<b]" using lt by (simp add: upt_conv_Cons)
  have ra: "r + a \<le> length seq" using lt Suc.prems by simp
  have m: "(int (length seq) - int r) mod int a = 0 \<longleftrightarrow> (length seq - r) mod a = 0"
  proof -
    have "int (length seq) - int r = int (length seq - r)" using ra by simp
    then show ?thesis by (simp only: zmod_int [symmetric] of_nat_eq_0_iff)
  qed
  have u: "[int r + int a..int (length seq) - 1] = map int [r + a..<length seq]"
    using upto_as_upt [of "r + a" "length seq"] by simp
  have am: "all_match seq (int a) [int r + int a..int (length seq) - 1] =
      Inr (\<forall>j\<in>{r + a..<length seq}. seq ! j = seq ! (j - a))"
    unfolding u by (rule all_match_upt) simp_all
  have sl: "slice_to seq (int r + int a) = take (r + a) seq"
    by (simp add: slice_to_def nat_add_distrib)
  show ?case
  proof (cases "fit r a")
    case True
    then have "min_period seq (int r) (map int [a..<b]) = Inr (take (r + a) seq)"
      unfolding l by (simp add: fit_def m am sl)
    moreover have "a \<in> {a..<b}" using lt by simp
    moreover have "\<forall>c'\<in>{a..<a}. \<not> fit r c'" by simp
    ultimately show ?thesis using True by blast
  next
    case False
    then have e: "min_period seq (int r) (map int [a..<b]) =
        min_period seq (int r) (map int [Suc a..<b])"
      unfolding l by (auto simp: fit_def m am)
    have "n = b - Suc a" using Suc.hyps(2) by simp
    moreover have "1 \<le> Suc a" by simp
    ultimately have "\<exists>seq'. min_period seq (int r) (map int [Suc a..<b]) = Inr seq' \<and>
           ((seq' = seq \<and> (\<forall>c\<in>{Suc a..<b}. \<not> fit r c)) \<or>
            (\<exists>c\<in>{Suc a..<b}. fit r c \<and> seq' = take (r + c) seq \<and> (\<forall>c'\<in>{Suc a..<c}. \<not> fit r c')))"
      using Suc.prems(2) by (rule Suc.hyps(1))
    then obtain seq' where ih: "min_period seq (int r) (map int [Suc a..<b]) = Inr seq'"
        "(seq' = seq \<and> (\<forall>c\<in>{Suc a..<b}. \<not> fit r c)) \<or>
         (\<exists>c\<in>{Suc a..<b}. fit r c \<and> seq' = take (r + c) seq \<and> (\<forall>c'\<in>{Suc a..<c}. \<not> fit r c'))"
      by blast
    have ext: "\<forall>c\<in>{a..<k}. \<not> fit r c" if "\<forall>c\<in>{Suc a..<k}. \<not> fit r c" for k
    proof
      fix c assume "c \<in> {a..<k}"
      then have "c = a \<or> c \<in> {Suc a..<k}" by auto
      then show "\<not> fit r c" using False that by blast
    qed
    from ih(2) have "(seq' = seq \<and> (\<forall>c\<in>{a..<b}. \<not> fit r c)) \<or>
         (\<exists>c\<in>{a..<b}. fit r c \<and> seq' = take (r + c) seq \<and> (\<forall>c'\<in>{a..<c}. \<not> fit r c'))"
    proof
      assume "seq' = seq \<and> (\<forall>c\<in>{Suc a..<b}. \<not> fit r c)"
      then show ?thesis using ext by blast
    next
      assume "\<exists>c\<in>{Suc a..<b}. fit r c \<and> seq' = take (r + c) seq \<and> (\<forall>c'\<in>{Suc a..<c}. \<not> fit r c')"
      then obtain c where c: "c \<in> {Suc a..<b}" "fit r c" "seq' = take (r + c) seq"
          "\<forall>c'\<in>{Suc a..<c}. \<not> fit r c'" by blast
      have "c \<in> {a..<b}" using c(1) by simp
      moreover have "\<forall>c'\<in>{a..<c}. \<not> fit r c'" using c(4) by (rule ext)
      ultimately show ?thesis using c(2,3) by blast
    qed
    then show ?thesis using e ih(1) by simp
  qed
qed

lemma fit_of_block:
  fixes seq :: "int list"
  assumes "1 \<le> g" "g dvd length seq - r"
    "\<forall>k<length seq - r. seq ! (r + k) = seq ! (r + k mod g)"
  shows "(length seq - r) mod g = 0 \<and> (\<forall>j\<in>{r + g..<length seq}. seq ! j = seq ! (j - g))"
proof
  show "(length seq - r) mod g = 0" using assms(2) by simp
  show "\<forall>j\<in>{r + g..<length seq}. seq ! j = seq ! (j - g)"
  proof
    fix j assume j: "j \<in> {r + g..<length seq}"
    define k where "k = j - r"
    have k: "g \<le> k" "k < length seq - r" "j = r + k" "j - g = r + (k - g)"
      using j by (auto simp: k_def)
    have a: "seq ! (r + k) = seq ! (r + k mod g)" using assms(3) k(2) by blast
    have "k - g < length seq - r" using k(2) by simp
    then have b: "seq ! (r + (k - g)) = seq ! (r + (k - g) mod g)" using assms(3) by blast
    have c: "(k - g) mod g = k mod g" using k(1) by (simp add: le_mod_geq)
    have "seq ! j = seq ! (r + k mod g)" using a by (simp only: k(3))
    moreover have "seq ! (j - g) = seq ! (r + k mod g)" using b by (simp only: k(4) c)
    ultimately show "seq ! j = seq ! (j - g)" by simp
  qed
qed

lemma block_of_fit:
  fixes seq :: "int list"
  assumes "\<forall>j\<in>{r + c..<length seq}. seq ! j = seq ! (j - c)" "k < length seq - r"
  shows "seq ! (r + k) = seq ! (r + k mod c)"
proof -
  have per: "\<forall>j. r + c \<le> j \<and> j < length seq \<longrightarrow> seq ! j = seq ! (j - c)"
    using assms(1) by simp
  have e: "r + k mod c + (k div c) * c = r + k" by (simp add: add.assoc mod_div_mult_eq)
  have "r + k < length seq" using assms(2) by simp
  then have "r + k mod c + (k div c) * c < length seq" by (simp only: e)
  then have "seq ! (r + k mod c + (k div c) * c) = seq ! (r + k mod c)"
    by (intro periodic_nth [OF per]) simp_all
  then show ?thesis by (simp only: e)
qed

lemma divisor_half:
  assumes "g dvd T" "g < T" "1 \<le> (g::nat)"
  shows "g \<le> T div 2"
proof -
  obtain m where m: "T = g * m" using assms(1) by (auto simp: dvd_def)
  have "m \<noteq> 0" using assms(2) m by (cases m) auto
  moreover have "m \<noteq> 1" using assms(2) m by auto
  ultimately have "2 \<le> m" by simp
  then have "g * 2 \<le> g * m" by (rule mult_le_mono2)
  then have "g * 2 \<le> T" by (simp only: m)
  then show ?thesis by arith
qed

lemma min_period_minimal:
  fixes seq :: "int list"
  assumes "r < length seq"
  shows "\<exists>seq'. min_period seq (int r) [1..(int (length seq) - int r) div 2] = Inr seq' \<and>
           r < length seq' \<and>
           (\<forall>j. 1 \<le> j \<and> j < length seq' - r \<longrightarrow> \<not> has_period (drop r seq') j)"
proof -
  define T where "T = length seq - r"
  define fit where "fit = (\<lambda>c. (length seq - r) mod c = 0 \<and>
      (\<forall>j\<in>{r + c..<length seq}. seq ! j = seq ! (j - c)))"
  have T: "0 < T" using assms by (simp add: T_def)
  have cands: "[1..(int (length seq) - int r) div 2] = map int [1..<T div 2 + 1]"
    unfolding T_def using assms by (intro candidates_upt) simp
  have "r + (T div 2 + 1) \<le> length seq + 1" using assms by (simp add: T_def)
  then have "\<exists>seq'. min_period seq (int r) (map int [1..<T div 2 + 1]) = Inr seq' \<and>
      ((seq' = seq \<and> (\<forall>c\<in>{1..<T div 2 + 1}. \<not> fit c)) \<or>
       (\<exists>c\<in>{1..<T div 2 + 1}. fit c \<and> seq' = take (r + c) seq \<and> (\<forall>c'\<in>{1..<c}. \<not> fit c')))"
    unfolding fit_def by (intro min_period_first) simp_all
  then obtain seq' where res: "min_period seq (int r) (map int [1..<T div 2 + 1]) = Inr seq'"
    and alt: "(seq' = seq \<and> (\<forall>c\<in>{1..<T div 2 + 1}. \<not> fit c)) \<or>
       (\<exists>c\<in>{1..<T div 2 + 1}. fit c \<and> seq' = take (r + c) seq \<and> (\<forall>c'\<in>{1..<c}. \<not> fit c'))"
    by blast
  have fitI: "fit g" if "1 \<le> g" "g dvd T"
      "\<forall>k<length seq - r. seq ! (r + k) = seq ! (r + k mod g)" for g
    unfolding fit_def using that by (intro fit_of_block) (simp_all add: T_def)
  from alt show ?thesis
  proof
    assume A: "seq' = seq \<and> (\<forall>c\<in>{1..<T div 2 + 1}. \<not> fit c)"
    have "\<not> has_period (drop r seq) j" if j: "1 \<le> j" "j < T" for j
    proof
      assume hp: "has_period (drop r seq) j"
      obtain g where g: "1 \<le> g" "g dvd length (drop r seq)" "g dvd j"
          "\<forall>k<length (drop r seq). drop r seq ! k = drop r seq ! (k mod g)"
        using period_divisor [OF hp j(1)] by blast
      have gT: "g dvd T" using g(2) by (simp add: T_def)
      have "g \<le> j" using g(3) j(1) by (intro dvd_imp_le) simp_all
      then have gl: "g < T" using j(2) by simp
      have blk: "\<forall>k<length seq - r. seq ! (r + k) = seq ! (r + k mod g)"
      proof (intro allI impI)
        fix k assume k: "k < length seq - r"
        have kg: "k mod g < length seq - r" by (rule le_less_trans [OF mod_less_eq_dividend k])
        have "drop r seq ! k = drop r seq ! (k mod g)" using g(4) k by simp
        then show "seq ! (r + k) = seq ! (r + k mod g)" using k kg by simp
      qed
      have "fit g" by (rule fitI [OF g(1) gT blk])
      moreover have "g \<in> {1..<T div 2 + 1}" using divisor_half [OF gT gl g(1)] g(1) by simp
      ultimately show False using A by blast
    qed
    then have "\<forall>j. 1 \<le> j \<and> j < length seq - r \<longrightarrow> \<not> has_period (drop r seq) j"
      by (simp add: T_def)
    then show ?thesis using res A assms by (simp add: cands)
  next
    assume "\<exists>c\<in>{1..<T div 2 + 1}. fit c \<and> seq' = take (r + c) seq \<and> (\<forall>c'\<in>{1..<c}. \<not> fit c')"
    then obtain c where c: "c \<in> {1..<T div 2 + 1}" "fit c" "seq' = take (r + c) seq"
        "\<forall>c'\<in>{1..<c}. \<not> fit c'" by blast
    have c1: "1 \<le> c" "c \<le> T" using c(1) by auto
    have len': "length seq' = r + c" using c1 by (simp add: c(3) T_def)
    have cT: "c dvd T" using c(2) by (simp add: fit_def T_def mod_eq_0_iff_dvd)
    have cfit: "\<forall>j\<in>{r + c..<length seq}. seq ! j = seq ! (j - c)" using c(2) by (simp add: fit_def)
    have "\<not> has_period (drop r seq') j" if j: "1 \<le> j" "j < c" for j
    proof
      assume hp: "has_period (drop r seq') j"
      obtain g where g: "1 \<le> g" "g dvd length (drop r seq')" "g dvd j"
          "\<forall>k<length (drop r seq'). drop r seq' ! k = drop r seq' ! (k mod g)"
        using period_divisor [OF hp j(1)] by blast
      have gc: "g dvd c" using g(2) len' by simp
      have "g \<le> j" using g(3) j(1) by (intro dvd_imp_le) simp_all
      then have gl: "g < c" using j(2) by simp
      have blk': "seq ! (r + k) = seq ! (r + k mod g)" if "k < c" for k
      proof -
        have kg: "k mod g < c" by (rule le_less_trans [OF mod_less_eq_dividend that])
        have "drop r seq' ! k = drop r seq' ! (k mod g)" using g(4) that len' by simp
        then show ?thesis using that kg len' by (simp add: c(3))
      qed
      have blk: "\<forall>k<length seq - r. seq ! (r + k) = seq ! (r + k mod g)"
      proof (intro allI impI)
        fix k assume k: "k < length seq - r"
        have "k mod c < c" using c1(1) by simp
        then have "seq ! (r + k mod c) = seq ! (r + (k mod c) mod g)" by (rule blk')
        moreover have "(k mod c) mod g = k mod g" using gc by (rule mod_mod_cancel)
        moreover have "seq ! (r + k) = seq ! (r + k mod c)" by (rule block_of_fit [OF cfit k])
        ultimately show "seq ! (r + k) = seq ! (r + k mod g)" by simp
      qed
      have "g dvd T" using gc cT by (rule dvd_trans)
      then have "fit g" by (rule fitI [OF g(1) _ blk])
      moreover have "g \<in> {1..<c}" using g(1) gl by simp
      ultimately show False using c(4) by blast
    qed
    then have "\<forall>j. 1 \<le> j \<and> j < length seq' - r \<longrightarrow> \<not> has_period (drop r seq') j"
      by (simp add: len')
    moreover have "r < length seq'" using len' c1(1) by simp
    ultimately show ?thesis using res by (simp add: cands)
  qed
qed

lemma first_nonzero_bound: "first_nonzero xs = Some i \<Longrightarrow> i < length xs"
  by (induction xs arbitrary: i) (auto split: if_splits)

lemma tail_digits_wf:
  assumes "r \<le> length s"
  shows "tail_digits (s, int r, h) = map Inr (drop r s)"
proof -
  have "[int r..int (length s) - 1] = map int [r..<length s]" by (rule upto_as_upt)
  then have "tail_digits (s, int r, h) = map (\<lambda>m. py_index s (int m)) [r..<length s]"
    by (simp add: tail_digits_def comp_def)
  also have "\<dots> = map (\<lambda>m. Inr (s ! m)) [r..<length s]"
    by (rule map_cong) (simp_all add: py_index_nat)
  also have "\<dots> = map Inr (map (nth s) [r..<length s])" by simp
  also have "map (nth s) [r..<length s] = drop r (map (nth s) [0..<length s])"
    by (simp add: drop_map)
  also have "map (nth s) [0..<length s] = s" by (rule map_nth)
  finally show ?thesis .
qed

lemma has_period_map_Inr: "has_period (map Inr w) j = has_period w j"
proof (cases "w = []")
  case True
  then show ?thesis by (simp add: has_period_def)
next
  case False
  then have b: "(k + j) mod length w < length w" for k by simp
  show ?thesis by (simp add: has_period_nth b)
qed

lemma simplify_padic_period_minimal:
  assumes "0 \<le> rpt" "rpt < int (length seq)" "0 \<le> shr"
    and "simplify_padic (seq, rpt, shr) = Inr (seq', rpt', shr')" "0 \<le> rpt'"
  shows "rpt' < int (length seq') \<and>
         (\<forall>j. 1 \<le> j \<and> int j < period_length (seq', rpt', shr') \<longrightarrow>
              \<not> has_period (tail_digits (seq', rpt', shr')) j)"
proof -
  define t where "t = (case first_nonzero (slice_to seq shr) of
      Some i \<Rightarrow> int i | None \<Rightarrow> min (int (length seq)) shr)"
  have t: "0 \<le> t \<and> t \<le> int (length seq)"
  proof (cases "first_nonzero (slice_to seq shr)")
    case None
    then show ?thesis using assms(3) by (simp add: t_def)
  next
    case (Some i)
    then have "i < length (slice_to seq shr)" by (rule first_nonzero_bound)
    then have "i < length seq" using assms(3) by (simp add: slice_to_def)
    then show ?thesis using Some by (simp add: t_def)
  qed
  define seq1 where "seq1 = drop (nat t) seq"
  have s1: "slice_from seq t = seq1" using t by (simp add: slice_from_def seq1_def)
  have "nat t \<le> length seq" using t by linarith
  then have l1: "int (length seq1) = int (length seq) - t" using t by (simp add: seq1_def of_nat_diff)
  have eq: "simplify_padic (seq, rpt, shr) =
      (if t = int (length seq) then Inr ([0], 0, 0)
       else (case merge_tail seq1 (rpt - t) of
         Inl e \<Rightarrow> Inl e
       | Inr (seq', rpt') \<Rightarrow>
           (case min_period seq' rpt' [1..(int (length seq') - rpt') div 2] of
              Inl e \<Rightarrow> Inl e
            | Inr seq'' \<Rightarrow> Inr (seq'', rpt', shr - t))))"
    by (simp only: simplify_padic_def prod.case t_def [symmetric] Let_def s1)
  show ?thesis
  proof (cases "t = int (length seq)")
    case True
    then have "Inr (seq', rpt', shr') = (Inr ([0], 0, 0) :: error + padic)"
      using eq assms(4) by simp
    then have "seq' = [0]" "rpt' = 0" by simp_all
    then show ?thesis by (simp add: period_length_def)
  next
    case False
    then have eq': "(case merge_tail seq1 (rpt - t) of
         Inl e \<Rightarrow> Inl e
       | Inr (seq', rpt') \<Rightarrow>
           (case min_period seq' rpt' [1..(int (length seq') - rpt') div 2] of
              Inl e \<Rightarrow> Inl e
            | Inr seq'' \<Rightarrow> Inr (seq'', rpt', shr - t))) = Inr (seq', rpt', shr')"
      using eq assms(4) by simp
    show ?thesis
    proof (cases "0 \<le> rpt - t")
      case neg: False
      have "merge_tail seq1 (rpt - t) = Inr (seq1, rpt - t)"
        using neg by (subst merge_tail.simps) simp
      then have "rpt' = rpt - t" using eq' by (auto split: sum.splits simp del: merge_tail.simps)
      then show ?thesis using neg assms(5) by simp
    next
      case pos: True
      have lt: "rpt - t < int (length seq1)" using assms(2) l1 by simp
      from merge_tail_run [OF pos lt, of 2]
      obtain seq2 r2 where m: "merge_tail seq1 (rpt - t) = Inr (seq2, int r2)" "r2 < length seq2"
        by blast
      from min_period_minimal [OF m(2)]
      obtain seq3 where mp: "min_period seq2 (int r2) [1..(int (length seq2) - int r2) div 2] = Inr seq3"
          "r2 < length seq3"
          "\<forall>j. 1 \<le> j \<and> j < length seq3 - r2 \<longrightarrow> \<not> has_period (drop r2 seq3) j"
        by blast
      have "Inr (seq3, int r2, shr - t) = (Inr (seq', rpt', shr') :: error + padic)"
        using eq' by (simp only: m(1) mp(1) sum.case prod.case)
      then have e: "seq' = seq3" "rpt' = int r2" by simp_all
      have td: "tail_digits (seq3, int r2, shr') = map Inr (drop r2 seq3)"
        using mp(2) by (intro tail_digits_wf) simp
      have "\<not> has_period (tail_digits (seq3, int r2, shr')) j"
        if "1 \<le> j" "int j < period_length (seq3, int r2, shr')" for j
      proof -
        have "j < length seq3 - r2" using that(2) by (simp add: period_length_def)
        then show ?thesis using mp(3) that(1) by (simp add: td has_period_map_Inr)
      qed
      then show ?thesis unfolding e using mp(2) by simp
    qed
  qed
qed

end
